theory Spec2Isabelle
  imports Complex_Main "HOL-Library.Signed_Division"
begin

section \<open>Conductor objects on a distributed grid (object.c)\<close>

text \<open>
  The development embeds the object subsystem of the particle-in-cell code: node
  classification (\<open>isGhostNode\<close>, \<open>oFillLookupTables\<close>, \<open>oFindObjectSurfaceNodes\<close>),
  the gathering of surface counts (\<open>oGatherSurfaceNodes\<close>), the capacitance loop
  (\<open>oComputeCapacitanceMatrix\<close>), the charge correction (\<open>oApplyCapacitanceMatrix\<close>)
  and the impact collector (\<open>oCollectObjectCharge\<close>).

  Conventions. A C array is a list, indexed from 0; \<open>long int\<close> and \<open>int\<close> values are
  unbounded integers (no quantity here comes near the machine range), loop counters that
  start at 0 and count upwards are natural numbers. A \<open>double\<close> is a real number: sums
  and products are exact. C leaves an access outside an array undefined; the model reads
  with \<open>xs ! i\<close> and writes with \<open>xs[i := v]\<close>, and it stands for the C function on the
  runs whose accesses are inside their arrays. Where a conclusion depends on a write
  landing inside its array, the theorem names the condition as a hypothesis. The object
  index \<open>a\<close> is 0-based as in the C loops: object \<open>a\<close> carries the tag \<open>a + 1\<close> of the
  object map.
\<close>

subsection \<open>The grid\<close>

text \<open>
  The fields of \<open>Grid\<close> (pinc.h) that object.c reads. \<open>sizeProd\<close> has \<open>rank + 1\<close>
  entries, \<open>size_g\<close> (the C field \<open>size\<close>) and \<open>trueSize\<close> have \<open>rank\<close>, and
  \<open>nGhostLayers\<close> has \<open>2 * rank\<close>: the first \<open>rank\<close> are the layers at the lower
  boundaries, the last \<open>rank\<close> those at the upper boundaries.
\<close>

record Grid =
  val :: "real list"
  rank :: nat
  size_g :: "int list"
  trueSize :: "int list"
  sizeProd :: "int list"
  nGhostLayers :: "int list"

text \<open>
  \<open>oGhost\<close> walks its four pointers downwards in step, so one index \<open>d\<close> stands for
  all of them; the two ghost-layer pointers are passed along and never dereferenced, so
  they do not appear. The out-parameter \<open>*ghost\<close> is the accumulator. C's \<open>%\<close>
  truncates, which is \<open>smod\<close>. At \<open>d = 0\<close> the C code would step in front of the
  arrays when \<open>sizeProd[0]\<close> is not 1; the model stops there.
\<close>

fun oGhost :: "int \<Rightarrow> int list \<Rightarrow> int list \<Rightarrow> nat \<Rightarrow> bool \<Rightarrow> bool" where
  "oGhost node tSize sProd 0 ghost =
     (if sProd ! 0 = 1 then (if node > tSize ! 0 \<or> node < 1 then True else ghost)
      else (let help = sProd ! 0 * (tSize ! 0 + 1)
            in (if node < sProd ! 0 \<or> node > help then True else ghost)))"
| "oGhost node tSize sProd (Suc d) ghost =
     (if sProd ! Suc d = 1 then (if node > tSize ! Suc d \<or> node < 1 then True else ghost)
      else (let help = sProd ! Suc d * (tSize ! Suc d + 1);
                ghost' = (if node < sProd ! Suc d \<or> node > help then True else ghost)
            in oGhost (node smod sProd ! Suc d) tSize sProd d ghost'))"

definition isGhostNode :: "Grid \<Rightarrow> int \<Rightarrow> bool" where
  "isGhostNode grid node = oGhost node (trueSize grid) (sizeProd grid) (rank grid - 1) False"

text \<open>
  The specification's ghost node, in its own words: a node is a ghost node iff any of
  its coordinates lies inside the ghost band on either side. Coordinate \<open>d\<close> of a linear
  index is recovered with the strides \<open>sizeProd\<close>.
\<close>

definition coordinate :: "Grid \<Rightarrow> int \<Rightarrow> nat \<Rightarrow> int" where
  "coordinate grid node d = (node div sizeProd grid ! d) mod size_g grid ! d"

definition spec_ghost :: "Grid \<Rightarrow> int \<Rightarrow> bool" where
  "spec_ghost grid node =
     list_ex (\<lambda>d. coordinate grid node d < nGhostLayers grid ! d
                \<or> coordinate grid node d \<ge> size_g grid ! d - nGhostLayers grid ! (rank grid + d))
             [0..<rank grid]"

text \<open>
  The grids the simulation runs on: scalar (first dimension 1), three space dimensions of
  \<open>nx\<close>, \<open>ny\<close>, \<open>nz\<close> nodes, one ghost layer on each side of each.
\<close>

definition oneLayerScalar :: "Grid \<Rightarrow> int \<Rightarrow> int \<Rightarrow> int \<Rightarrow> bool" where
  "oneLayerScalar grid nx ny nz \<longleftrightarrow>
     rank grid = 4 \<and> size_g grid = [1, nx, ny, nz]
     \<and> trueSize grid = [1, nx - 2, ny - 2, nz - 2]
     \<and> sizeProd grid = [1, 1, nx, nx * ny, nx * ny * nz]
     \<and> nGhostLayers grid = [0, 1, 1, 1, 0, 1, 1, 1]"

text \<open>A scalar grid of 2 x 2 x 2 true nodes with two ghost layers on every side.\<close>

definition grid_two_layers :: Grid where
  "grid_two_layers =
     \<lparr> val = replicate 216 0, rank = 4, size_g = [1, 6, 6, 6], trueSize = [1, 2, 2, 2],
       sizeProd = [1, 1, 6, 36, 216], nGhostLayers = [0, 2, 2, 2, 0, 2, 2, 2] \<rparr>"

subsection \<open>The object record and its construction\<close>

text \<open>
  The fields of \<open>Object\<close> that the capacitance core reads and writes. The lookup tables
  hold linear node indices, the offset tables hold positions in the lookup tables;
  \<open>capMatrixAllOffsets\<close> is the table \<open>nodCorGlob\<close> of \<open>oGatherSurfaceNodes\<close>: row
  \<open>a\<close> has \<open>size + 1\<close> entries, the cumulative surface counts of the ranks.
\<close>

record Object =
  nObjects :: nat
  lookupInterior :: "nat list"
  lookupInteriorOffset :: "nat list"
  lookupSurface :: "nat list"
  lookupSurfaceOffset :: "nat list"
  capMatrixAll :: "real list"
  capMatrixAllOffsets :: "nat list"
  capMatrixSum :: "real list"

text \<open>The error kinds of the specification; a fatal \<open>msg(ERROR, ...)\<close> would be one.\<close>

datatype error = CONFIG | NUMERICAL | COMM | INTERNAL

text \<open>The C cast \<open>(int) x\<close> of a double truncates towards zero.\<close>

definition c_int :: "real \<Rightarrow> int" where
  "c_int x = (if x \<ge> 0 then \<lfloor>x\<rfloor> else \<lceil>x\<rceil>)"

text \<open>
  Modelled from the spec: \<open>alCumSum\<close> (aux.c is not among the sources). The spec calls
  it a prefix sum; pinc.h documents its siblings \<open>alCumProd\<close> as writing \<open>n + 1\<close>
  results that start at the neutral element. Every call in object.c has the form
  \<open>alCumSum(x + 1, x, n)\<close>, input and output overlapping, so the model works on the one
  buffer \<open>x\<close>: \<open>x[0] = 0\<close>, then \<open>x[p + 1] = x[p] + x[p + 1]\<close> for \<open>p = 0 .. n - 1\<close>.
\<close>

definition alCumSum :: "nat list \<Rightarrow> nat \<Rightarrow> nat list" where
  "alCumSum x n = fold (\<lambda>p x. x[p + 1 := x ! p + x ! (p + 1)]) [0..<n] (x[0 := 0])"

subsection \<open>Node classification\<close>

text \<open>
  \<open>oFillLookupTables\<close>: a first pass over all local nodes (ghost nodes too: the test
  \<open>!isGhostNode\<close> is commented out in the source) counts the nodes of each tag, the
  cumulative sum turns the counts into offsets, and a second pass writes each node into
  the next free cell of its object's block. \<open>tagOf\<close> is \<open>(int)(val[i] + 0.5)\<close>.
  The result is the pair of \<open>lookupInterior\<close> and \<open>lookupInteriorOffset\<close>.
\<close>

definition tagOf :: "real \<Rightarrow> nat" where
  "tagOf v = nat (c_int (v + 0.5))"

definition countInterior :: "Grid \<Rightarrow> nat \<Rightarrow> nat list" where
  "countInterior domain nObj =
     fold (\<lambda>i off. if val domain ! i > 0.5
                    then off[tagOf (val domain ! i) := off ! tagOf (val domain ! i) + 1]
                    else off)
          [0..<nat (sizeProd domain ! rank domain)] (replicate (nObj + 1) 0)"

definition fillInterior :: "Grid \<Rightarrow> nat list \<times> nat list \<Rightarrow> nat list \<times> nat list" where
  "fillInterior domain =
     fold (\<lambda>i (lookup, index).
             if val domain ! i > 0.5
             then (lookup[index ! (tagOf (val domain ! i) - 1) := i],
                   index[tagOf (val domain ! i) - 1 := index ! (tagOf (val domain ! i) - 1) + 1])
             else (lookup, index))
          [0..<nat (sizeProd domain ! rank domain)]"

definition oFillLookupTables :: "Grid \<Rightarrow> nat \<Rightarrow> nat list \<times> nat list" where
  "oFillLookupTables domain nObj =
     (let lookupInteriorOffset = alCumSum (countInterior domain nObj) nObj;
          lookupInterior = replicate (lookupInteriorOffset ! nObj) 0;
          index = take nObj lookupInteriorOffset
      in (fst (fillInterior domain (lookupInterior, index)), lookupInteriorOffset))"

text \<open>
  \<open>oFindObjectSurfaceNodes\<close>. \<open>myNB\<close> is the array of the same name: the node and
  the eight sampled nodes. \<open>hasTag\<close> is the test \<open>val[i] > a + 0.5 && val[i] < a + 1.5\<close>,
  \<open>countNB\<close> the counter \<open>d\<close> after the eight tests, \<open>onSurface\<close> the two nested
  conditions \<open>!isGhostNode(b)\<close> and \<open>d < 7.5 && d > 0\<close>. Both passes loop over the
  objects and, inside, over the nodes.
\<close>

definition myNB :: "int list \<Rightarrow> int \<Rightarrow> int list" where
  "myNB sProd b =
     [b,
      b,
      b - sProd ! 3,
      b - sProd ! 1,
      b - sProd ! 1 - sProd ! 3,
      b - sProd ! 2,
      b - sProd ! 2 - sProd ! 3,
      b - sProd ! 2 - sProd ! 1,
      b - sProd ! 2 - sProd ! 1 - sProd ! 3]"

definition hasTag :: "real list \<Rightarrow> nat \<Rightarrow> int \<Rightarrow> bool" where
  "hasTag v a i = (v ! nat i > real a + 0.5 \<and> v ! nat i < real a + 1.5)"

definition countNB :: "Grid \<Rightarrow> nat \<Rightarrow> int \<Rightarrow> nat" where
  "countNB domain a b =
     (let nb = myNB (sizeProd domain) b;
          hit = (\<lambda>k. if hasTag (val domain) a (nb ! k) then 1 else 0)
      in hit 1 + hit 2 + hit 3 + hit 4 + hit 5 + hit 6 + hit 7 + hit 8)"

definition onSurface :: "Grid \<Rightarrow> nat \<Rightarrow> nat \<Rightarrow> bool" where
  "onSurface domain a b =
     (if \<not> isGhostNode domain (int b)
      then (let d = countNB domain a (int b) in real d < 7.5 \<and> d > 0)
      else False)"

definition countSurface :: "Grid \<Rightarrow> nat \<Rightarrow> nat list" where
  "countSurface domain nObj =
     fold (\<lambda>a. fold (\<lambda>b off. if onSurface domain a b then off[a + 1 := off ! (a + 1) + 1] else off)
                     [0..<nat (sizeProd domain ! rank domain)])
          [0..<nObj] (replicate (nObj + 1) 0)"

definition fillSurface :: "Grid \<Rightarrow> nat \<Rightarrow> nat list \<times> nat list \<Rightarrow> nat list \<times> nat list" where
  "fillSurface domain nObj =
     fold (\<lambda>a. fold (\<lambda>b (lookup, index).
                        if onSurface domain a b
                        then (lookup[index ! a := b], index[a := index ! a + 1])
                        else (lookup, index))
                     [0..<nat (sizeProd domain ! rank domain)])
          [0..<nObj]"

definition oFindObjectSurfaceNodes :: "Grid \<Rightarrow> nat \<Rightarrow> nat list \<times> nat list" where
  "oFindObjectSurfaceNodes domain nObj =
     (let lookupSurfaceOffset = alCumSum (countSurface domain nObj) nObj;
          lookupSurface = replicate (lookupSurfaceOffset ! nObj) 0;
          index = take nObj lookupSurfaceOffset
      in (fst (fillSurface domain nObj (lookupSurface, index)), lookupSurfaceOffset))"

text \<open>
  What the two passes accept, written as a filter. \<open>sampledNodes\<close> lists the cells
  1 to 8 of \<open>myNB\<close>, \<open>sampledCount\<close> is the counter \<open>d\<close> of the code (the number of
  them that pass \<open>hasTag\<close>), and \<open>acceptedNodes\<close> are the nodes, in scan order, for
  which \<open>isGhostNode\<close> answers false and \<open>0 < d < 8\<close>. Likewise \<open>interiorNodes\<close> are
  the nodes that \<open>oFillLookupTables\<close> puts into the block of object \<open>a\<close>.
\<close>

definition sampledNodes :: "int list \<Rightarrow> int \<Rightarrow> int list" where
  "sampledNodes sProd i =
     [i, i - sProd ! 3, i - sProd ! 1, i - sProd ! 1 - sProd ! 3,
      i - sProd ! 2, i - sProd ! 2 - sProd ! 3, i - sProd ! 2 - sProd ! 1,
      i - sProd ! 2 - sProd ! 1 - sProd ! 3]"

definition sampledCount :: "Grid \<Rightarrow> nat \<Rightarrow> int \<Rightarrow> nat" where
  "sampledCount domain a i =
     length (filter (hasTag (val domain) a) (sampledNodes (sizeProd domain) i))"

definition acceptedNodes :: "Grid \<Rightarrow> nat \<Rightarrow> nat list" where
  "acceptedNodes domain a =
     filter (\<lambda>b. \<not> isGhostNode domain (int b)
                 \<and> 0 < sampledCount domain a (int b) \<and> sampledCount domain a (int b) < 8)
            [0..<nat (sizeProd domain ! rank domain)]"

definition interiorNodes :: "Grid \<Rightarrow> nat \<Rightarrow> nat list" where
  "interiorNodes domain a =
     filter (\<lambda>i. val domain ! i > 0.5 \<and> tagOf (val domain ! i) = a + 1)
            [0..<nat (sizeProd domain ! rank domain)]"

text \<open>
  Modelled from the spec: the surface nodes of an object. The tag of a node is its value
  rounded (\<open>spec_tag\<close>); \<open>spec_count\<close> is the count \<open>d\<close> of the eight sampled nodes
  \<open>i\<close>, \<open>i - sizeProd[3]\<close>, \<open>i - sizeProd[1]\<close>, ... whose tag is that of the object
  (tag \<open>a + 1\<close> for the 0-based object index \<open>a\<close>); and \<open>spec_surfaceNodes\<close> are the
  nodes, in ascending order, that are not ghost nodes in the sense of \<open>spec_ghost\<close> and
  have \<open>0 < d < 8\<close>. \<open>noHalfTags\<close> says that no value of the object map lies exactly
  halfway between two whole numbers; a map of whole numbers is of this kind.
\<close>

definition spec_tag :: "real \<Rightarrow> int" where
  "spec_tag v = round v"

definition spec_count :: "Grid \<Rightarrow> nat \<Rightarrow> int \<Rightarrow> nat" where
  "spec_count domain a i =
     length (filter (\<lambda>n. spec_tag (val domain ! nat n) = int a + 1)
                    (sampledNodes (sizeProd domain) i))"

definition spec_surfaceNodes :: "Grid \<Rightarrow> nat \<Rightarrow> nat list" where
  "spec_surfaceNodes domain a =
     filter (\<lambda>b. \<not> spec_ghost domain (int b)
                 \<and> 0 < spec_count domain a (int b) \<and> spec_count domain a (int b) < 8)
            [0..<nat (sizeProd domain ! rank domain)]"

definition noHalfTags :: "Grid \<Rightarrow> bool" where
  "noHalfTags domain = list_all (\<lambda>v. frac v \<noteq> 1 / 2) (val domain)"

text \<open>The offsets of consecutive blocks: the lengths of the blocks before each one.\<close>

definition blockOffsets :: "(nat \<Rightarrow> nat list) \<Rightarrow> nat \<Rightarrow> nat list" where
  "blockOffsets blocks nObj = map (\<lambda>a. length (concat (map blocks [0..<a]))) [0..<nObj + 1]"

text \<open>
  \<open>oGatherSurfaceNodes\<close>, for all ranks at once: \<open>sOffs\<close> lists the
  \<open>lookupSurfaceOffset\<close> table of every rank, in rank order. \<open>MPI_Allgather\<close> hands
  every rank the list of all local counts; the shift by one, the leading 0 and the
  cumulative sum follow, and the row is copied into \<open>nodCorGlob\<close>. The result is the pair
  of \<open>nodCorGlob\<close> and the returned \<open>capMatrixAllSize\<close>. The local count is a
  difference of two offsets of a cumulative table, which is never negative.
\<close>

definition gatherRow :: "nat list list \<Rightarrow> nat \<Rightarrow> nat list" where
  "gatherRow sOffs a =
     (let size = length sOffs;
          nodCorLoc = map (\<lambda>so. so ! (a + 1) - so ! a) sOffs @ [0];
          nodCorLoc = fold (\<lambda>i l. l[i + 1 := l ! i]) (rev [0..<size]) nodCorLoc;
          nodCorLoc = nodCorLoc[0 := 0]
      in alCumSum nodCorLoc size)"

definition oGatherSurfaceNodes :: "nat \<Rightarrow> nat list list \<Rightarrow> nat list \<times> nat" where
  "oGatherSurfaceNodes nObj sOffs =
     (let size = length sOffs;
          nodCorGlob = concat (map (gatherRow sOffs) [0..<nObj]);
          capMatrixAllSize = fold (\<lambda>a s. s + nodCorGlob ! (a * (size + 1) + size)) [0..<nObj] 0
      in (nodCorGlob, capMatrixAllSize))"

text \<open>
  \<open>oAlloc\<close>, lines 1432-1447 and the calls that follow. \<open>localMaxTag\<close> is the loop
  that raises \<open>nObjects\<close> to \<open>(int)(val[i] + 0.5)\<close> whenever \<open>val[i]\<close> exceeds it;
  \<open>allreduceMax\<close> is \<open>MPI_Allreduce\<close> with \<open>MPI_MAX\<close>. \<open>domains\<close> lists the object
  map of every rank (after the read and the halo exchange), \<open>mpiRank\<close> chooses the rank
  whose object is built. The function has no failing branch: there is no test of
  \<open>nObjects\<close> and no call of \<open>msg(ERROR, ...)\<close>. \<open>malloc\<close> leaves the contents of
  \<open>capMatrixAll\<close> and \<open>capMatrixSum\<close> indeterminate; the model fills them with zeros
  and no theorem reads them before they are written.
\<close>

definition localMaxTag :: "Grid \<Rightarrow> nat" where
  "localMaxTag domain =
     fold (\<lambda>i nObj. if val domain ! i > real nObj then tagOf (val domain ! i) else nObj)
          [0..<nat (sizeProd domain ! rank domain)] 0"

definition allreduceMax :: "nat list \<Rightarrow> nat" where
  "allreduceMax xs = fold max xs 0"

definition oAlloc :: "Grid list \<Rightarrow> nat \<Rightarrow> error + Object" where
  "oAlloc domains mpiRank =
     (let nObj = allreduceMax (map localMaxTag domains);
          interior = oFillLookupTables (domains ! mpiRank) nObj;
          surface = oFindObjectSurfaceNodes (domains ! mpiRank) nObj;
          gathered = oGatherSurfaceNodes nObj (map (\<lambda>d. snd (oFindObjectSurfaceNodes d nObj)) domains);
          capMatrixAllSize = snd gathered
      in Inr \<lparr> nObjects = nObj,
               lookupInterior = fst interior, lookupInteriorOffset = snd interior,
               lookupSurface = fst surface, lookupSurfaceOffset = snd surface,
               capMatrixAll = replicate (capMatrixAllSize * capMatrixAllSize) 0,
               capMatrixAllOffsets = fst gathered,
               capMatrixSum = replicate nObj 0 \<rparr>)"

subsection \<open>The capacitance store\<close>

text \<open>
  \<open>oComputeCapacitanceMatrix\<close>, lines 307-310: the inverse of object \<open>a\<close>, with
  \<open>totSNGlob\<close> rows, is copied into the store from position
  \<open>a * totSNGlob * totSNGlob\<close>. \<open>oApplyCapacitanceMatrix\<close> reads entry \<open>(j, i)\<close> of
  object \<open>a\<close> at \<open>a * totSNGlob * totSNGlob + totSNGlob * j + i\<close>.
\<close>

definition storeIndices :: "nat \<Rightarrow> nat \<Rightarrow> nat list" where
  "storeIndices a totSNGlob = map (\<lambda>l. a * totSNGlob * totSNGlob + l) [0..<totSNGlob * totSNGlob]"

definition storeInverse :: "real list \<Rightarrow> nat \<Rightarrow> nat \<Rightarrow> real list \<Rightarrow> real list" where
  "storeInverse capAll a totSNGlob invCapMatrix =
     fold (\<lambda>l c. c[a * totSNGlob * totSNGlob + l := invCapMatrix ! l])
          [0..<totSNGlob * totSNGlob] capAll"

definition capEntry :: "real list \<Rightarrow> nat \<Rightarrow> nat \<Rightarrow> nat \<Rightarrow> nat \<Rightarrow> real" where
  "capEntry capAll a totSNGlob j i = capAll ! (a * totSNGlob * totSNGlob + totSNGlob * j + i)"

text \<open>
  Lines 313-315: \<open>capMatrixSum[a]\<close> becomes the reciprocal of the sum of the entries
  of the inverse (\<open>adSum\<close>, which pinc.h documents as the sum of all elements).
\<close>

definition storeSum :: "real list \<Rightarrow> nat \<Rightarrow> real list \<Rightarrow> real list" where
  "storeSum capSum a invCapMatrix = capSum[a := 1 / sum_list invCapMatrix]"

text \<open>
  The store that \<open>oAlloc\<close> allocates has \<open>capMatrixAllSize * capMatrixAllSize\<close> cells.
  Two objects on one rank, the first with two surface nodes and the second with one, and
  the other way round with one and three.
\<close>

definition sOffs_2_1 :: "nat list list" where
  "sOffs_2_1 = [[0, 2, 3]]"

definition sOffs_1_3 :: "nat list list" where
  "sOffs_1_3 = [[0, 1, 4]]"

subsection \<open>The capacitance loop\<close>

text \<open>
  \<open>oComputeCapacitanceMatrix\<close>, lines 244-284, as one rank runs it. The state of the
  loop over the columns \<open>i\<close>: the two solver grids, the matrix under construction, the
  rank counter \<open>j\<close> and the node counter \<open>inode\<close>; \<open>solverInputs\<close> records the charge
  grid handed to each call of the solver. The solver is a parameter: it reads the charge
  grid and returns the new potential grid. The two \<open>while\<close> loops read \<open>nodCorGlob\<close> at
  a growing index; the model stops them at the end of the table, where C would read
  beyond it.
\<close>

record CapLoop =
  rhoCap :: "real list"
  phiCap :: "real list"
  capMatrix :: "real list"
  jRank :: nat
  inode :: nat
  solverInputs :: "real list list"

function skipEmptyRanks :: "nat list \<Rightarrow> nat \<Rightarrow> nat \<Rightarrow> nat" where
  "skipEmptyRanks nodCorGlob row j =
     (if row + j + 1 < length nodCorGlob
         \<and> int (nodCorGlob ! (row + j + 1)) - int (nodCorGlob ! (row + j)) = 0
      then skipEmptyRanks nodCorGlob row (j + 1)
      else j)"
  by pat_completeness auto
termination
  by (relation "measure (\<lambda>(g, row, j). length g - (row + j))") auto

function nextNode :: "nat list \<Rightarrow> nat \<Rightarrow> nat \<Rightarrow> nat \<Rightarrow> nat \<times> nat" where
  "nextNode nodCorGlob row j inod =
     (if row + j + 1 < length nodCorGlob
         \<and> int inod > int (nodCorGlob ! (row + j + 1)) - int (nodCorGlob ! (row + j)) - 1
      then nextNode nodCorGlob row (j + 1) 0
      else (j, inod))"
  by pat_completeness auto
termination
  by (relation "measure (\<lambda>(g, row, j, inod). length g - (row + j))") auto

definition capColumn ::
  "(real list \<Rightarrow> real list \<Rightarrow> real list) \<Rightarrow> Object \<Rightarrow> nat \<Rightarrow> nat \<Rightarrow> nat \<Rightarrow> nat \<Rightarrow> CapLoop \<Rightarrow> CapLoop" where
  "capColumn solve ob mpiRank mpiSize a i st =
     (let nodCorGlob = capMatrixAllOffsets ob;
          lookupSurf = lookupSurface ob;
          lookupSurfOff = lookupSurfaceOffset ob;
          totSNGlob = nodCorGlob ! (a * (mpiSize + 1) + mpiSize);
          beginIndex = nodCorGlob ! (a * (mpiSize + 1) + mpiRank);
          endIndex = nodCorGlob ! (a * (mpiSize + 1) + mpiRank + 1);
          j = skipEmptyRanks nodCorGlob (a * (mpiSize + 1)) (jRank st);
          rho1 = (if mpiRank = j then (rhoCap st)[lookupSurf ! (lookupSurfOff ! a + inode st) := 1]
                  else rhoCap st);
          phi1 = solve rho1 (phiCap st);
          rho2 = (if mpiRank = j then rho1[lookupSurf ! inode st := 0] else rho1);
          capMatrix1 = fold (\<lambda>k m. m[totSNGlob * k + i := phi1 ! (lookupSurf ! (lookupSurfOff ! a + k - beginIndex))])
                            [beginIndex..<endIndex] (capMatrix st);
          next = nextNode nodCorGlob (a * (mpiSize + 1)) j (inode st + 1)
      in \<lparr> rhoCap = rho2, phiCap = phi1, capMatrix = capMatrix1,
           jRank = fst next, inode = snd next,
           solverInputs = solverInputs st @ [rho1] \<rparr>)"

definition capColumns ::
  "(real list \<Rightarrow> real list \<Rightarrow> real list) \<Rightarrow> Object \<Rightarrow> nat \<Rightarrow> nat \<Rightarrow> nat \<Rightarrow> real list \<Rightarrow> real list \<Rightarrow> CapLoop" where
  "capColumns solve ob mpiRank mpiSize a rho0 phi0 =
     (let totSNGlob = capMatrixAllOffsets ob ! (a * (mpiSize + 1) + mpiSize)
      in fold (capColumn solve ob mpiRank mpiSize a) [0..<totSNGlob]
           \<lparr> rhoCap = rho0, phiCap = phi0, capMatrix = replicate (totSNGlob * totSNGlob) 0,
             jRank = 0, inode = 0, solverInputs = [] \<rparr>)"

text \<open>
  One rank, three objects with surface nodes 5; 9 and 11; 13 on a grid of 16 nodes.
\<close>

definition three_objects :: Object where
  "three_objects =
     \<lparr> nObjects = 3, lookupInterior = [5, 9, 11, 13], lookupInteriorOffset = [0, 1, 3, 4],
       lookupSurface = [5, 9, 11, 13], lookupSurfaceOffset = [0, 1, 3, 4],
       capMatrixAll = replicate 16 0, capMatrixAllOffsets = [0, 1, 0, 2, 0, 1],
       capMatrixSum = [0, 0, 0] \<rparr>"

subsection \<open>The charge correction\<close>

text \<open>
  \<open>oApplyCapacitanceMatrix\<close> is collective: three \<open>MPI_Allreduce\<close> calls per object
  combine what the ranks computed. The model runs all ranks together. A \<open>RankState\<close>
  holds what one rank passes to the function: the values of its \<open>rho\<close> and \<open>phi\<close>
  grids and its object; the rank number is the position in the list, the number of ranks
  is its length. The scratch buffers \<open>deltaPhi\<close> and \<open>rhoCorr\<close> are lists of
  \<open>totSNGlob\<close> cells, the part of the buffers the function uses.
\<close>

record RankState =
  rhoVal :: "real list"
  phiVal :: "real list"
  object :: Object

definition totSNGlob :: "Object \<Rightarrow> nat \<Rightarrow> nat \<Rightarrow> nat" where
  "totSNGlob ob mpiSize a = capMatrixAllOffsets ob ! (a * (mpiSize + 1) + mpiSize)"

definition beginIndex :: "Object \<Rightarrow> nat \<Rightarrow> nat \<Rightarrow> nat \<Rightarrow> nat" where
  "beginIndex ob mpiSize mpiRank a = capMatrixAllOffsets ob ! (a * (mpiSize + 1) + mpiRank)"

definition endIndex :: "Object \<Rightarrow> nat \<Rightarrow> nat \<Rightarrow> nat \<Rightarrow> nat" where
  "endIndex ob mpiSize mpiRank a = capMatrixAllOffsets ob ! (a * (mpiSize + 1) + mpiRank + 1)"

text \<open>The node \<open>lookupSurf[lookupSurfOff[a] + j - beginIndex]\<close>.\<close>

definition surfNode :: "Object \<Rightarrow> nat \<Rightarrow> nat \<Rightarrow> nat \<Rightarrow> nat \<Rightarrow> nat" where
  "surfNode ob mpiSize mpiRank a j =
     lookupSurface ob ! (lookupSurfaceOffset ob ! a + j - beginIndex ob mpiSize mpiRank a)"

text \<open>Lines 375-395: the local part of \<open>capMatrixPhiSum\<close>, times \<open>capMatrixSum[a]\<close>.\<close>

definition phiSumLocal :: "RankState \<Rightarrow> nat \<Rightarrow> nat \<Rightarrow> nat \<Rightarrow> real" where
  "phiSumLocal st mpiSize mpiRank a =
     (let ob = object st; T = totSNGlob ob mpiSize a
      in (\<Sum>i\<leftarrow>[0..<T]. \<Sum>j\<leftarrow>[beginIndex ob mpiSize mpiRank a..<endIndex ob mpiSize mpiRank a].
            capEntry (capMatrixAll ob) a T j i * phiVal st ! surfNode ob mpiSize mpiRank a j)
         * capMatrixSum ob ! a)"

text \<open>Lines 369 and 403-406: \<open>deltaPhi\<close> before the reduction.\<close>

definition deltaPhiLocal :: "RankState \<Rightarrow> nat \<Rightarrow> nat \<Rightarrow> nat \<Rightarrow> real \<Rightarrow> real list" where
  "deltaPhiLocal st mpiSize mpiRank a capMatrixPhiSum =
     (let ob = object st
      in fold (\<lambda>j d. d[j := capMatrixPhiSum - phiVal st ! surfNode ob mpiSize mpiRank a j])
              [beginIndex ob mpiSize mpiRank a..<endIndex ob mpiSize mpiRank a]
              (replicate (totSNGlob ob mpiSize a) 0))"

text \<open>\<open>MPI_Allreduce\<close> with \<open>MPI_SUM\<close> on vectors of \<open>n\<close> cells, one vector per rank.\<close>

definition allreduceSum :: "real list list \<Rightarrow> nat \<Rightarrow> real list" where
  "allreduceSum vs n = map (\<lambda>k. \<Sum>v\<leftarrow>vs. v ! k) [0..<n]"

text \<open>Lines 371 and 411-415: \<open>rhoCorr\<close> before the reduction.\<close>

definition rhoCorrLocal :: "RankState \<Rightarrow> nat \<Rightarrow> nat \<Rightarrow> nat \<Rightarrow> real list \<Rightarrow> real list" where
  "rhoCorrLocal st mpiSize mpiRank a deltaPhi =
     (let ob = object st; T = totSNGlob ob mpiSize a
      in map (\<lambda>i. \<Sum>j\<leftarrow>[beginIndex ob mpiSize mpiRank a..<endIndex ob mpiSize mpiRank a].
                     capEntry (capMatrixAll ob) a T j i * deltaPhi ! j)
             [0..<T])"

text \<open>Lines 419-423: the corrections are added to \<open>rho\<close> at this rank's surface nodes.\<close>

definition addCorrection :: "RankState \<Rightarrow> nat \<Rightarrow> nat \<Rightarrow> nat \<Rightarrow> real list \<Rightarrow> real list" where
  "addCorrection st mpiSize mpiRank a rhoCorr =
     (let ob = object st
      in fold (\<lambda>j r. r[surfNode ob mpiSize mpiRank a j := r ! surfNode ob mpiSize mpiRank a j + rhoCorr ! j])
              [beginIndex ob mpiSize mpiRank a..<endIndex ob mpiSize mpiRank a]
              (rhoVal st))"

text \<open>The quantities after each reduction, as rank \<open>mpiRank\<close> holds them.\<close>

definition capMatrixPhiSum :: "RankState list \<Rightarrow> nat \<Rightarrow> real" where
  "capMatrixPhiSum ws a = (\<Sum>r\<leftarrow>[0..<length ws]. phiSumLocal (ws ! r) (length ws) r a)"

definition deltaPhi :: "RankState list \<Rightarrow> nat \<Rightarrow> nat \<Rightarrow> real list" where
  "deltaPhi ws mpiRank a =
     allreduceSum (map (\<lambda>r. deltaPhiLocal (ws ! r) (length ws) r a (capMatrixPhiSum ws a)) [0..<length ws])
                  (totSNGlob (object (ws ! mpiRank)) (length ws) a)"

definition rhoCorr :: "RankState list \<Rightarrow> nat \<Rightarrow> nat \<Rightarrow> real list" where
  "rhoCorr ws mpiRank a =
     allreduceSum (map (\<lambda>r. rhoCorrLocal (ws ! r) (length ws) r a (deltaPhi ws r a)) [0..<length ws])
                  (totSNGlob (object (ws ! mpiRank)) (length ws) a)"

text \<open>The body of the loop over the objects, and the loop, for all ranks.\<close>

definition applyObject :: "nat \<Rightarrow> RankState list \<Rightarrow> RankState list" where
  "applyObject a ws =
     map (\<lambda>r. (ws ! r)\<lparr> rhoVal := addCorrection (ws ! r) (length ws) r a (rhoCorr ws r a) \<rparr>)
         [0..<length ws]"

definition oApplyCapacitanceMatrix :: "RankState list \<Rightarrow> RankState list" where
  "oApplyCapacitanceMatrix ws =
     (case ws of [] \<Rightarrow> [] | w # _ \<Rightarrow> fold applyObject [0..<nObjects (object w)] ws)"

text \<open>
  The conditions under which the correction is studied. \<open>surfaceBlocks\<close> lists the
  nodes in the surface lookup blocks of an object. \<open>localCounts\<close> are the surface counts
  of the ranks for object \<open>a\<close> and \<open>prefixCount\<close> their running sums.
  \<open>offsetsGathered\<close>: all ranks agree on the number of objects and hold the table that
  \<open>oGatherSurfaceNodes\<close> computes from their surface offsets, as after \<open>oAlloc\<close>.
  \<open>sameStore\<close>: all ranks hold the same capacitance store. \<open>surfaceInGrid\<close>: every
  listed surface node is a cell of the rank's \<open>rho\<close> and \<open>phi\<close>. \<open>sumInverted\<close>: for every
  object, \<open>capMatrixSum[a]\<close> times the sum of the entries that the correction reads as
  its matrix is 1; this holds right after \<open>oComputeCapacitanceMatrix\<close> has stored the
  matrix of the object (lines 307-315) when the sum is not 0, and as long as no later
  object writes into the block. \<open>totalCharge\<close> is the sum of \<open>rho\<close> over all nodes of all ranks.
\<close>

definition surfaceBlocks :: "Object \<Rightarrow> nat list" where
  "surfaceBlocks ob =
     concat (map (\<lambda>a. map ((!) (lookupSurface ob))
                          [lookupSurfaceOffset ob ! a..<lookupSurfaceOffset ob ! (a + 1)])
                 [0..<nObjects ob])"

definition localCounts :: "nat list list \<Rightarrow> nat \<Rightarrow> nat list" where
  "localCounts sOffs a = map (\<lambda>so. so ! (a + 1) - so ! a) sOffs"

definition prefixCount :: "RankState list \<Rightarrow> nat \<Rightarrow> nat \<Rightarrow> nat" where
  "prefixCount ws a k =
     sum_list (take k (localCounts (map (\<lambda>w. lookupSurfaceOffset (object w)) ws) a))"

definition offsetsGathered :: "RankState list \<Rightarrow> bool" where
  "offsetsGathered ws =
     list_all (\<lambda>w. nObjects (object w) = nObjects (object (hd ws))
                  \<and> capMatrixAllOffsets (object w)
                      = fst (oGatherSurfaceNodes (nObjects (object (hd ws)))
                              (map (\<lambda>w. lookupSurfaceOffset (object w)) ws)))
              ws"

definition sameStore :: "RankState list \<Rightarrow> bool" where
  "sameStore ws =
     list_all (\<lambda>w. capMatrixAll (object w) = capMatrixAll (object (hd ws))
                  \<and> capMatrixSum (object w) = capMatrixSum (object (hd ws)))
              ws"

definition surfaceInGrid :: "RankState list \<Rightarrow> bool" where
  "surfaceInGrid ws =
     list_all (\<lambda>w. list_all (\<lambda>n. n < length (rhoVal w) \<and> n < length (phiVal w))
                          (surfaceBlocks (object w)))
              ws"

definition sumInverted :: "RankState list \<Rightarrow> bool" where
  "sumInverted ws =
     (let ob = object (hd ws)
      in list_all (\<lambda>a. capMatrixSum ob ! a
                        * (\<Sum>i\<leftarrow>[0..<totSNGlob ob (length ws) a].
                             \<Sum>j\<leftarrow>[0..<totSNGlob ob (length ws) a].
                               capEntry (capMatrixAll ob) a (totSNGlob ob (length ws) a) j i) = 1)
                  [0..<nObjects ob])"

definition totalCharge :: "RankState list \<Rightarrow> real" where
  "totalCharge ws = (\<Sum>w\<leftarrow>ws. sum_list (rhoVal w))"

subsection \<open>The store after the initialisation\<close>

text \<open>
  \<open>oComputeCapacitanceMatrix\<close>, lines 307-315 inside the loop over the objects (line
  227): what the function leaves in \<open>capMatrixAll\<close> and \<open>capMatrixSum\<close>.
  \<open>invCapMatrices ! a\<close> is the array \<open>invCapMatrix\<close> of object \<open>a\<close> after
  \<open>gsl_linalg_LU_invert\<close>, \<open>totSNGlob * totSNGlob\<close> numbers; the library call is outside
  the sources, so its result is a parameter.
\<close>

definition storeObject :: "nat \<Rightarrow> real list list \<Rightarrow> nat \<Rightarrow> Object \<Rightarrow> Object" where
  "storeObject mpiSize invCapMatrices a ob =
     (let T = totSNGlob ob mpiSize a;
          invCapMatrix = invCapMatrices ! a
      in ob \<lparr> capMatrixAll := storeInverse (capMatrixAll ob) a T invCapMatrix,
              capMatrixSum := storeSum (capMatrixSum ob) a (take (T * T) invCapMatrix) \<rparr>)"

definition storeObjects :: "nat \<Rightarrow> real list list \<Rightarrow> Object \<Rightarrow> Object" where
  "storeObjects mpiSize invCapMatrices ob =
     fold (storeObject mpiSize invCapMatrices) [0..<nObjects ob] ob"

subsection \<open>The impact collector\<close>

text \<open>
  \<open>oCollectObjectCharge\<close>. Lines 695-699: the reciprocal surface counts. Lines 714-718:
  the node of a particle. Lines 739-756: one particle, with charge \<open>q\<close> and node \<open>p\<close>,
  against the interior table; the removal of the particle from the population does not
  touch \<open>chargeCounter\<close> and is left out. Lines 772-783: the deposit of the reduced
  counters on \<open>rhoObj\<close>.
\<close>

definition invNrSurfNod :: "nat list \<Rightarrow> nat \<Rightarrow> nat \<Rightarrow> real list" where
  "invNrSurfNod nodCorGlob mpiSize nObj =
     map (\<lambda>a. 1.0 / real (nodCorGlob ! ((a + 1) * mpiSize))) [0..<nObj]"

definition particleNode :: "int list \<Rightarrow> real list \<Rightarrow> int" where
  "particleNode sProd ppos =
     (let j = c_int (ppos ! 0); k = c_int (ppos ! 1); l = c_int (ppos ! 2)
      in j + k * sProd ! 2 + l * sProd ! 3)"

definition collectParticle :: "Object \<Rightarrow> int \<Rightarrow> real \<Rightarrow> real list \<Rightarrow> real list" where
  "collectParticle ob p q chargeCounter =
     fold (\<lambda>a. fold (\<lambda>b cc. if int (lookupInterior ob ! b) = p then cc[a := cc ! a + q] else cc)
                     [lookupInteriorOffset ob ! a..<lookupInteriorOffset ob ! (a + 1)])
          [0..<nObjects ob] chargeCounter"

definition depositCharge :: "Object \<Rightarrow> real list \<Rightarrow> real list \<Rightarrow> real list \<Rightarrow> real list" where
  "depositCharge ob chargeCounter invNr rhoObj =
     fold (\<lambda>a. fold (\<lambda>b v. v[lookupSurface ob ! b := v ! (lookupSurface ob ! b) + chargeCounter ! a * invNr ! a])
                     [lookupSurfaceOffset ob ! a..<lookupSurfaceOffset ob ! (a + 1)])
          [0..<nObjects ob] rhoObj"

text \<open>
  Rank 1 of two ranks, two objects: the first object has one surface node on each rank,
  the second has one on rank 0 and two on rank 1 (nodes 7 and 8 of a grid of 12 nodes).
\<close>

definition rank1_of_two :: Object where
  "rank1_of_two =
     \<lparr> nObjects = 2, lookupInterior = [3, 7, 8], lookupInteriorOffset = [0, 1, 3],
       lookupSurface = [3, 7, 8], lookupSurfaceOffset = [0, 1, 3],
       capMatrixAll = replicate 25 0, capMatrixAllOffsets = [0, 1, 2, 0, 1, 3],
       capMatrixSum = [0, 0] \<rparr>"

subsection \<open>Buckets\<close>

text \<open>
  Both lookup tables are filled bucket by bucket. An event \<open>(a, b)\<close> says that node
  \<open>b\<close> goes into the block of object \<open>a\<close>. \<open>bump\<close> is the statement that counts
  it (\<open>offset[a + 1]++\<close>), \<open>putNode\<close> the pair of statements that stores it
  (\<open>lookup[index[a]] = b; index[a]++\<close>), \<open>bucket\<close> the nodes of object \<open>a\<close> in
  the order of the events.
\<close>

definition bump :: "nat \<Rightarrow> nat list \<Rightarrow> nat list" where
  "bump a off = off[a + 1 := off ! (a + 1) + 1]"

definition putNode :: "nat \<times> nat \<Rightarrow> nat list \<times> nat list \<Rightarrow> nat list \<times> nat list" where
  "putNode e st = ((fst st)[snd st ! fst e := snd e], (snd st)[fst e := snd st ! fst e + 1])"

definition bucket :: "(nat \<times> nat) list \<Rightarrow> nat \<Rightarrow> nat list" where
  "bucket es a = map snd (filter (\<lambda>e. fst e = a) es)"

definition surfaceEvents :: "Grid \<Rightarrow> nat \<Rightarrow> (nat \<times> nat) list" where
  "surfaceEvents domain nObj =
     concat (map (\<lambda>a. map (Pair a) (filter (onSurface domain a) [0..<nat (sizeProd domain ! rank domain)]))
                 [0..<nObj])"

definition interiorEvents :: "Grid \<Rightarrow> (nat \<times> nat) list" where
  "interiorEvents domain =
     map (\<lambda>i. (tagOf (val domain ! i) - 1, i))
         (filter (\<lambda>i. val domain ! i > 0.5) [0..<nat (sizeProd domain ! rank domain)])"

text \<open>
  The blocks of an index table \<open>ix\<close> are separated for the events \<open>es\<close> when every
  event names a block, every block has room for its nodes inside a table of \<open>n\<close> cells,
  and a block ends before the next one starts.
\<close>

definition separated :: "(nat \<times> nat) list \<Rightarrow> nat list \<Rightarrow> nat \<Rightarrow> bool" where
  "separated es ix n \<longleftrightarrow>
     (\<forall>e\<in>set es. fst e < length ix)
     \<and> (\<forall>a<length ix. ix ! a + length (bucket es a) \<le> n)
     \<and> (\<forall>a<length ix. \<forall>a'<length ix. a < a' \<longrightarrow> ix ! a + length (bucket es a) \<le> ix ! a')"

subsection \<open>Small grids\<close>

text \<open>
  Scalar grids with one ghost layer on every side and the given object map: 3 x 3 x 3
  nodes (one true node, index 13) and 4 x 4 x 4 nodes (eight true nodes).
\<close>

definition grid3 :: "real list \<Rightarrow> Grid" where
  "grid3 v =
     \<lparr> val = v, rank = 4, size_g = [1, 3, 3, 3], trueSize = [1, 1, 1, 1],
       sizeProd = [1, 1, 3, 9, 27], nGhostLayers = [0, 1, 1, 1, 0, 1, 1, 1] \<rparr>"

definition grid4 :: "real list \<Rightarrow> Grid" where
  "grid4 v =
     \<lparr> val = v, rank = 4, size_g = [1, 4, 4, 4], trueSize = [1, 2, 2, 2],
       sizeProd = [1, 1, 4, 16, 64], nGhostLayers = [0, 1, 1, 1, 0, 1, 1, 1] \<rparr>"

text \<open>
  Object maps: one tagged true node (node 21 of the 4 x 4 x 4 grid), one tagged ghost
  node (node 0 of the 3 x 3 x 3 grid), and no tagged node at all; and the objects that
  \<open>oAlloc\<close> builds from the last two on a single rank.
\<close>

definition objmap_node21 :: Grid where
  "objmap_node21 = grid4 ((replicate 64 0)[21 := 1])"

definition objmap_ghost0 :: Grid where
  "objmap_ghost0 = grid3 ((replicate 27 0)[0 := 1])"

definition objmap_empty :: Grid where
  "objmap_empty = grid3 (replicate 27 0)"

definition object_ghost0 :: Object where
  "object_ghost0 =
     \<lparr> nObjects = 1, lookupInterior = [0], lookupInteriorOffset = [0, 1],
       lookupSurface = [13], lookupSurfaceOffset = [0, 1],
       capMatrixAll = [0], capMatrixAllOffsets = [0, 1], capMatrixSum = [0] \<rparr>"

definition object_empty :: Object where
  "object_empty =
     \<lparr> nObjects = 0, lookupInterior = [], lookupInteriorOffset = [0],
       lookupSurface = [], lookupSurfaceOffset = [0],
       capMatrixAll = [], capMatrixAllOffsets = [], capMatrixSum = [] \<rparr>"

text \<open>
  Two ranks and one object with one surface node on each rank (node 5 on rank 0, node 6
  on rank 1); the matrix has the rows (2, 1) and (1, 1), whose entries sum to 5.
\<close>

definition two_ranks :: "RankState list" where
  "two_ranks =
     [\<lparr> rhoVal = [0, 1, 0, 0, 0, 2, 0, 0], phiVal = [0, 0, 0, 0, 0, 3, 0, 0],
        object = \<lparr> nObjects = 1, lookupInterior = [5], lookupInteriorOffset = [0, 1],
                   lookupSurface = [5], lookupSurfaceOffset = [0, 1],
                   capMatrixAll = [2, 1, 1, 1], capMatrixAllOffsets = [0, 1, 2],
                   capMatrixSum = [1 / 5] \<rparr> \<rparr>,
      \<lparr> rhoVal = [0, 0, 0, 0, 0, 0, 4, 0], phiVal = [0, 0, 0, 0, 0, 0, 7, 0],
        object = \<lparr> nObjects = 1, lookupInterior = [6], lookupInteriorOffset = [0, 1],
                   lookupSurface = [6], lookupSurfaceOffset = [0, 1],
                   capMatrixAll = [2, 1, 1, 1], capMatrixAllOffsets = [0, 1, 2],
                   capMatrixSum = [1 / 5] \<rparr> \<rparr>]"

text \<open>
  One rank on the 4 x 4 x 4 grid; the ghost node 16 carries tag 1 and the true node 42
  carries tag 2. The first object has the surface nodes 21 and 37, the second the surface
  node 42. \<open>object_2_1\<close> is the object that \<open>oAlloc\<close> builds, \<open>stored_2_1\<close> the object
  after the store loop when the inverses are the matrix with rows (2, 1), (1, 2) and the
  matrix (3), and \<open>world_2_1\<close> the rank with a zero \<open>rho\<close> and a \<open>phi\<close> of 1, 2 and 4
  at the three surface nodes.
\<close>

definition objmap_2_1 :: Grid where
  "objmap_2_1 = grid4 ((replicate 64 0)[16 := 1, 42 := 2])"

definition object_2_1 :: Object where
  "object_2_1 =
     \<lparr> nObjects = 2, lookupInterior = [16, 42], lookupInteriorOffset = [0, 1, 2],
       lookupSurface = [21, 37, 42], lookupSurfaceOffset = [0, 2, 3],
       capMatrixAll = replicate 9 0, capMatrixAllOffsets = [0, 2, 0, 1],
       capMatrixSum = [0, 0] \<rparr>"

definition stored_2_1 :: Object where
  "stored_2_1 = storeObjects 1 [[2, 1, 1, 2], [3]] object_2_1"

definition world_2_1 :: "RankState list" where
  "world_2_1 =
     [\<lparr> rhoVal = replicate 64 0, phiVal = (replicate 64 0)[21 := 1, 37 := 2, 42 := 4],
        object = stored_2_1 \<rparr>]"

text \<open>
  The two-layer grid with tag 1 at node 85, which is the node (1, 2, 2) inside the lower
  ghost band; and the 4 x 4 x 4 grid with the value 1.5 at the true node 21.
\<close>

definition objmap_two_layers :: Grid where
  "objmap_two_layers = grid_two_layers \<lparr> val := (replicate 216 0)[85 := 1] \<rparr>"

definition objmap_half :: Grid where
  "objmap_half = grid4 ((replicate 64 0)[21 := 1.5])"

section \<open>Lemmas\<close>

subsection \<open>Counting and filling buckets\<close>

lemma fold_if_filter:
  "fold (\<lambda>b s. if P b then f b s else s) bs s = fold f (filter P bs) s"
  by (induction bs arbitrary: s) auto

lemma bucket_Nil: "bucket [] a = []"
  by (simp add: bucket_def)

lemma bucket_Cons:
  "bucket (e # es) a = (if fst e = a then snd e # bucket es a else bucket es a)"
  by (simp add: bucket_def)

lemma bucket_snoc:
  "bucket (es @ [e]) a = (if fst e = a then bucket es a @ [snd e] else bucket es a)"
  by (simp add: bucket_def)

lemma length_fold_bump: "length (fold (\<lambda>e. bump (fst e)) es off) = length off"
  by (induction es arbitrary: off) (auto simp: bump_def)

lemma fold_bump_nth:
  "k < length off \<Longrightarrow>
   fold (\<lambda>e. bump (fst e)) es off ! k
     = off ! k + (if k = 0 then 0 else length (bucket es (k - 1)))"
proof (induction es arbitrary: off)
  case Nil
  then show ?case by (simp add: bucket_Nil)
next
  case (Cons e es)
  have "fold (\<lambda>e. bump (fst e)) (e # es) off ! k
          = fold (\<lambda>e. bump (fst e)) es (bump (fst e) off) ! k" by simp
  also have "\<dots> = bump (fst e) off ! k + (if k = 0 then 0 else length (bucket es (k - 1)))"
    using Cons.prems by (intro Cons.IH) (simp add: bump_def)
  also have "\<dots> = off ! k + (if k = 0 then 0 else length (bucket (e # es) (k - 1)))"
    using Cons.prems by (auto simp: bump_def bucket_Cons nth_list_update)
  finally show ?case .
qed

lemma alCumSum_step:
  "m \<le> n \<Longrightarrow> length x = n + 1 \<Longrightarrow>
   length (fold (\<lambda>p x. x[p + 1 := x ! p + x ! (p + 1)]) [0..<m] (x[0 := 0])) = n + 1
   \<and> (\<forall>k\<le>n. fold (\<lambda>p x. x[p + 1 := x ! p + x ! (p + 1)]) [0..<m] (x[0 := 0]) ! k
              = (if k \<le> m then sum_list (take k (tl x)) else x ! k))"
proof (induction m)
  case 0
  then show ?case by (auto simp: nth_list_update)
next
  case (Suc m)
  let ?F = "fold (\<lambda>p x. x[p + 1 := x ! p + x ! (p + 1)]) [0..<m] (x[0 := 0])"
  from Suc have len: "length ?F = n + 1"
    and nth: "\<And>k. k \<le> n \<Longrightarrow> ?F ! k = (if k \<le> m then sum_list (take k (tl x)) else x ! k)"
    by auto
  have m: "m < length (tl x)" using Suc.prems by simp
  have tk: "sum_list (take (Suc m) (tl x)) = sum_list (take m (tl x)) + x ! (m + 1)"
    using m by (simp add: take_Suc_conv_app_nth nth_tl)
  show ?case
    using Suc.prems len nth tk by (auto simp: nth_list_update)
qed

lemma length_alCumSum: "length x = n + 1 \<Longrightarrow> length (alCumSum x n) = n + 1"
  using alCumSum_step [of n n x] by (simp add: alCumSum_def)

lemma alCumSum_nth:
  "length x = n + 1 \<Longrightarrow> k \<le> n \<Longrightarrow> alCumSum x n ! k = sum_list (take k (tl x))"
  using alCumSum_step [of n n x] by (simp add: alCumSum_def)

lemma separated_snocD:
  assumes "separated (es @ [e]) ix n"
  shows "separated es ix n"
proof -
  have le: "ix ! a + length (bucket es a) \<le> ix ! a + length (bucket (es @ [e]) a)" for a
    by (simp add: bucket_snoc)
  have "\<forall>e\<in>set es. fst e < length ix"
    using assms by (simp add: separated_def)
  moreover have "\<forall>a<length ix. ix ! a + length (bucket es a) \<le> n"
    using assms le unfolding separated_def by (meson le_trans)
  moreover have "\<forall>a<length ix. \<forall>a'<length ix. a < a' \<longrightarrow> ix ! a + length (bucket es a) \<le> ix ! a'"
    using assms le unfolding separated_def by (meson le_trans)
  ultimately show ?thesis by (simp add: separated_def)
qed

lemma fold_putNode:
  "separated es ix (length l) \<Longrightarrow>
   length (fst (fold putNode es (l, ix))) = length l
   \<and> length (snd (fold putNode es (l, ix))) = length ix
   \<and> (\<forall>a<length ix. snd (fold putNode es (l, ix)) ! a = ix ! a + length (bucket es a))
   \<and> (\<forall>a<length ix. \<forall>k<length (bucket es a).
         fst (fold putNode es (l, ix)) ! (ix ! a + k) = bucket es a ! k)"
proof (induction es rule: rev_induct)
  case Nil
  then show ?case by (simp add: bucket_Nil)
next
  case (snoc e es)
  let ?st = "fold putNode es (l, ix)"
  let ?b = "fst e"
  have sep: "separated es ix (length l)" using snoc.prems by (rule separated_snocD)
  note IH = snoc.IH [OF sep]
  have b: "?b < length ix" using snoc.prems by (simp add: separated_def)
  have pos: "snd ?st ! ?b = ix ! ?b + length (bucket es ?b)" using IH b by blast
  have inl: "ix ! ?b + length (bucket es ?b) < length l"
  proof -
    have "ix ! ?b + length (bucket (es @ [e]) ?b) \<le> length l"
      using snoc.prems b unfolding separated_def by blast
    then show ?thesis by (simp add: bucket_snoc)
  qed
  have step: "putNode e ?st
      = ((fst ?st)[ix ! ?b + length (bucket es ?b) := snd e],
         (snd ?st)[?b := ix ! ?b + length (bucket es ?b) + 1])"
    by (simp add: putNode_def pos)
  have other: "ix ! a + k \<noteq> ix ! ?b + length (bucket es ?b)"
    if "a < length ix" "a \<noteq> ?b" "k < length (bucket es a)" for a k
  proof (cases "a < ?b")
    case True
    then have "ix ! a + length (bucket (es @ [e]) a) \<le> ix ! ?b"
      using snoc.prems that b unfolding separated_def by blast
    then show ?thesis using that by (simp add: bucket_snoc)
  next
    case False
    then have "?b < a" using that by simp
    then have "ix ! ?b + length (bucket (es @ [e]) ?b) \<le> ix ! a"
      using snoc.prems that b unfolding separated_def by blast
    then show ?thesis by (simp add: bucket_snoc)
  qed
  show ?case
  proof (intro conjI allI impI)
    show "length (fst (fold putNode (es @ [e]) (l, ix))) = length l"
      using IH by (simp add: step)
    show "length (snd (fold putNode (es @ [e]) (l, ix))) = length ix"
      using IH by (simp add: step)
  next
    fix a assume a: "a < length ix"
    show "snd (fold putNode (es @ [e]) (l, ix)) ! a = ix ! a + length (bucket (es @ [e]) a)"
      using IH a by (auto simp: step bucket_snoc nth_list_update)
  next
    fix a k assume a: "a < length ix" and k: "k < length (bucket (es @ [e]) a)"
    show "fst (fold putNode (es @ [e]) (l, ix)) ! (ix ! a + k) = bucket (es @ [e]) a ! k"
    proof (cases "a = ?b")
      case True
      show ?thesis
      proof (cases "k < length (bucket es a)")
        case True
        with IH a \<open>a = ?b\<close> show ?thesis
          by (simp add: step bucket_snoc nth_append)
      next
        case False
        with k \<open>a = ?b\<close> have "k = length (bucket es ?b)" by (simp add: bucket_snoc)
        with IH inl \<open>a = ?b\<close> show ?thesis
          by (simp add: step bucket_snoc nth_append)
      qed
    next
      case False
      with k have k': "k < length (bucket es a)" by (simp add: bucket_snoc)
      from other [OF a False k'] IH a k' False show ?thesis
        by (simp add: step bucket_snoc)
    qed
  qed
qed

lemma offs_Suc:
  "length (concat (map f [0..<Suc k])) = length (concat (map f [0..<k])) + length (f k)"
  by simp

lemma offs_mono:
  "k \<le> k' \<Longrightarrow> length (concat (map f [0..<k])) \<le> length (concat (map f [0..<k']))"
proof (induction k' )
  case 0
  then show ?case by simp
next
  case (Suc k')
  then show ?case by (cases "k = Suc k'") (auto simp del: upt_Suc simp add: offs_Suc)
qed

lemma table_blocks:
  assumes es: "\<forall>e\<in>set es. fst e < N"
    and len: "length off = N + 1"
    and off: "\<And>k. k \<le> N \<Longrightarrow> off ! k = length (concat (map (bucket es) [0..<k]))"
  shows "fst (fold putNode es (replicate (off ! N) 0, take N off)) = concat (map (bucket es) [0..<N])"
proof -
  let ?ix = "take N off"
  let ?l = "replicate (off ! N) (0::nat)"
  let ?L = "fst (fold putNode es (?l, ?ix))"
  have lix: "length ?ix = N" using len by simp
  have ix: "?ix ! a = off ! a" if "a < N" for a using that by simp
  have suc: "off ! a + length (bucket es a) = off ! Suc a" if "a < N" for a
    using that off [of a] off [of "Suc a"] by simp
  have mono: "off ! k \<le> off ! k'" if "k \<le> k'" "k' \<le> N" for k k'
    using that off [of k] off [of k'] offs_mono [of k k' "bucket es"] by simp
  have sep: "separated es ?ix (length ?l)"
    unfolding separated_def
  proof (intro conjI allI impI)
    show "\<forall>e\<in>set es. fst e < length ?ix" using es lix by simp
  next
    fix a assume "a < length ?ix"
    then have a: "a < N" using lix by simp
    then show "?ix ! a + length (bucket es a) \<le> length ?l"
      using suc [OF a] mono [of "Suc a" N] ix [OF a] by simp
  next
    fix a a' assume "a < length ?ix" "a' < length ?ix" "a < a'"
    then have a: "a < N" and a': "a' < N" and aa: "Suc a \<le> a'" using lix by simp_all
    show "?ix ! a + length (bucket es a) \<le> ?ix ! a'"
      using suc [OF a] mono [OF aa] a' ix [OF a] ix [OF a'] by simp
  qed
  note F = fold_putNode [OF sep]
  have lenL: "length ?L = off ! N" using F by simp
  have nthL: "?L ! (off ! a + k) = bucket es a ! k" if "a < N" "k < length (bucket es a)" for a k
    using F that lix ix by (metis (no_types, lifting))
  have pre: "k \<le> N \<Longrightarrow> take (off ! k) ?L = concat (map (bucket es) [0..<k])" for k
  proof (induction k)
    case 0
    then show ?case using off [of 0] by simp
  next
    case (Suc k)
    then have k: "k < N" by simp
    have le: "off ! k + length (bucket es k) \<le> length ?L"
      using suc [OF k] mono [of "Suc k" N] k lenL by simp
    have blk: "take (length (bucket es k)) (drop (off ! k) ?L) = bucket es k"
    proof (rule nth_equalityI)
      show "length (take (length (bucket es k)) (drop (off ! k) ?L)) = length (bucket es k)"
        using le by simp
    next
      fix j assume "j < length (take (length (bucket es k)) (drop (off ! k) ?L))"
      then have j: "j < length (bucket es k)" by simp
      then show "take (length (bucket es k)) (drop (off ! k) ?L) ! j = bucket es k ! j"
        using le nthL [OF k j] by simp
    qed
    have "take (off ! Suc k) ?L = take (off ! k + length (bucket es k)) ?L"
      using suc [OF k] by simp
    also have "\<dots> = take (off ! k) ?L @ take (length (bucket es k)) (drop (off ! k) ?L)"
      by (simp add: take_add)
    also have "\<dots> = concat (map (bucket es) [0..<k]) @ bucket es k"
      using Suc.IH k blk by simp
    finally show ?case by simp
  qed
  from pre [of N] lenL show ?thesis by simp
qed

lemma bucket_append: "bucket (xs @ ys) a = bucket xs a @ bucket ys a"
  by (simp add: bucket_def)

lemma bucket_Pair: "bucket (map (Pair c) bs) a = (if c = a then bs else [])"
  by (induction bs) (auto simp: bucket_def)

lemma fold_if_filter_fun:
  "fold (\<lambda>b s. if P b then f b s else s) bs = fold f (filter P bs)"
  by (rule ext) (rule fold_if_filter)

lemma fold_concat: "fold f (concat xss) s = fold (fold f) xss s"
  by (induction xss arbitrary: s) auto

lemma lookup_table:
  assumes es: "\<forall>e\<in>set es. fst e < N"
  defines "off \<equiv> alCumSum (fold (\<lambda>e. bump (fst e)) es (replicate (N + 1) 0)) N"
  shows "off = blockOffsets (bucket es) N"
    and "fst (fold putNode es (replicate (off ! N) 0, take N off)) = concat (map (bucket es) [0..<N])"
proof -
  let ?c = "fold (\<lambda>e. bump (fst e)) es (replicate (N + 1) 0)"
  have lc: "length ?c = N + 1" by (simp add: length_fold_bump)
  have c: "?c ! Suc a = length (bucket es a)" if "a < N" for a
    using that fold_bump_nth [of "Suc a" "replicate (N + 1) 0" es] by simp
  have tl: "tl ?c = map (\<lambda>a. length (bucket es a)) [0..<N]"
    by (rule nth_equalityI) (use lc c in \<open>simp_all add: nth_tl\<close>)
  have loff: "length off = N + 1" unfolding off_def by (rule length_alCumSum) (rule lc)
  have noff: "off ! k = length (concat (map (bucket es) [0..<k]))" if "k \<le> N" for k
  proof -
    have "off ! k = sum_list (take k (tl ?c))"
      unfolding off_def using lc that by (rule alCumSum_nth)
    also have "\<dots> = sum_list (map (\<lambda>a. length (bucket es a)) [0..<k])"
      using that by (subst tl) (simp add: take_map min_def)
    also have "\<dots> = length (concat (map (bucket es) [0..<k]))"
      by (simp add: length_concat comp_def)
    finally show ?thesis .
  qed
  show "off = blockOffsets (bucket es) N"
    by (rule nth_equalityI) (use loff noff in \<open>simp_all add: blockOffsets_def less_Suc_eq_le del: upt_Suc\<close>)
  show "fst (fold putNode es (replicate (off ! N) 0, take N off)) = concat (map (bucket es) [0..<N])"
    using es loff noff by (rule table_blocks)
qed

lemma countSurface_events:
  "countSurface domain nObj = fold (\<lambda>e. bump (fst e)) (surfaceEvents domain nObj) (replicate (nObj + 1) 0)"
proof -
  have "(\<lambda>b off. if onSurface domain a b then off[a + 1 := off ! (a + 1) + 1] else off)
          = (\<lambda>b off. if onSurface domain a b then bump a off else off)" for a
    by (auto simp: fun_eq_iff bump_def)
  then show ?thesis
    by (simp add: countSurface_def surfaceEvents_def fold_if_filter_fun fold_concat fold_map comp_def)
qed

lemma fillSurface_events:
  "fillSurface domain nObj st = fold putNode (surfaceEvents domain nObj) st"
proof -
  have "(\<lambda>b (lookup, index). if onSurface domain a b
                 then (lookup[index ! a := b], index[a := index ! a + 1]) else (lookup, index))
          = (\<lambda>b s. if onSurface domain a b then putNode (a, b) s else s)" for a
    by (auto simp: fun_eq_iff putNode_def)
  then show ?thesis
    by (simp add: fillSurface_def surfaceEvents_def fold_if_filter_fun fold_concat fold_map comp_def)
qed

lemma countNB_sampled: "countNB domain a i = sampledCount domain a i"
  by (simp add: countNB_def sampledCount_def sampledNodes_def myNB_def Let_def)

lemma onSurface_iff:
  "onSurface domain a b \<longleftrightarrow>
     \<not> isGhostNode domain (int b)
     \<and> 0 < sampledCount domain a (int b) \<and> sampledCount domain a (int b) < 8"
  by (auto simp: onSurface_def Let_def countNB_sampled)

lemma bucket_surfaceEvents:
  "bucket (surfaceEvents domain nObj) a = (if a < nObj then acceptedNodes domain a else [])"
proof (induction nObj)
  case 0
  then show ?case by (simp add: surfaceEvents_def bucket_Nil)
next
  case (Suc n)
  have "surfaceEvents domain (Suc n)
          = surfaceEvents domain n
            @ map (Pair n) (filter (onSurface domain n) [0..<nat (sizeProd domain ! rank domain)])"
    by (simp add: surfaceEvents_def)
  moreover have "filter (onSurface domain n) [0..<nat (sizeProd domain ! rank domain)] = acceptedNodes domain n"
    unfolding acceptedNodes_def by (rule filter_cong) (simp_all add: onSurface_iff)
  ultimately show ?case using Suc by (auto simp: bucket_append bucket_Pair)
qed

lemma surfaceEvents_bound: "\<forall>e\<in>set (surfaceEvents domain nObj). fst e < nObj"
  by (auto simp: surfaceEvents_def)

lemma oFindObjectSurfaceNodes_blocks:
  "oFindObjectSurfaceNodes domain nObj
     = (concat (map (acceptedNodes domain) [0..<nObj]), blockOffsets (acceptedNodes domain) nObj)"
proof -
  let ?es = "surfaceEvents domain nObj"
  have m: "map (bucket ?es) [0..<k] = map (acceptedNodes domain) [0..<k]" if "k \<le> nObj" for k
    using that by (simp add: bucket_surfaceEvents)
  have bo: "blockOffsets (bucket ?es) nObj = blockOffsets (acceptedNodes domain) nObj"
    unfolding blockOffsets_def by (rule map_cong) (simp_all add: m less_Suc_eq_le del: upt_Suc)
  show ?thesis
    using lookup_table [OF surfaceEvents_bound, of domain nObj] m [of nObj] bo
    by (simp add: oFindObjectSurfaceNodes_def Let_def countSurface_events fillSurface_events)
qed

lemma tagOf_pos: "v > 0.5 \<Longrightarrow> 1 \<le> tagOf v"
proof -
  assume v: "v > 0.5"
  then have "1 \<le> v + 0.5" by simp
  then have "1 \<le> \<lfloor>v + 0.5\<rfloor>" by linarith
  then have n: "1 \<le> nat \<lfloor>v + 0.5\<rfloor>" by linarith
  from v have "tagOf v = nat \<lfloor>v + 0.5\<rfloor>" by (simp add: tagOf_def c_int_def)
  with n show ?thesis by (simp only:)
qed

lemma countInterior_events:
  "countInterior domain nObj = fold (\<lambda>e. bump (fst e)) (interiorEvents domain) (replicate (nObj + 1) 0)"
proof -
  have "(\<lambda>i off. if val domain ! i > 0.5
                  then off[tagOf (val domain ! i) := off ! tagOf (val domain ! i) + 1] else off)
          = (\<lambda>i off. if val domain ! i > 0.5 then bump (tagOf (val domain ! i) - 1) off else off)"
  proof (intro ext)
    fix i off
    show "(if val domain ! i > 0.5
           then off[tagOf (val domain ! i) := off ! tagOf (val domain ! i) + 1] else off)
        = (if val domain ! i > 0.5 then bump (tagOf (val domain ! i) - 1) off else off)"
    proof (cases "val domain ! i > 0.5")
      case True
      from tagOf_pos [OF True] have "tagOf (val domain ! i) - 1 + 1 = tagOf (val domain ! i)" by simp
      then show ?thesis by (simp add: bump_def)
    next
      case False
      then show ?thesis by simp
    qed
  qed
  then show ?thesis
    by (simp add: countInterior_def interiorEvents_def fold_if_filter_fun fold_map comp_def)
qed

lemma fillInterior_events:
  "fillInterior domain st = fold putNode (interiorEvents domain) st"
proof -
  have "(\<lambda>i (lookup, index). if val domain ! i > 0.5
             then (lookup[index ! (tagOf (val domain ! i) - 1) := i],
                   index[tagOf (val domain ! i) - 1 := index ! (tagOf (val domain ! i) - 1) + 1])
             else (lookup, index))
          = (\<lambda>i s. if val domain ! i > 0.5 then putNode (tagOf (val domain ! i) - 1, i) s else s)"
    by (auto simp: fun_eq_iff putNode_def)
  then show ?thesis
    by (simp add: fillInterior_def interiorEvents_def fold_if_filter_fun fold_map comp_def)
qed

lemma bucket_interiorEvents: "bucket (interiorEvents domain) a = interiorNodes domain a"
proof -
  have "(val domain ! i > 0.5 \<and> tagOf (val domain ! i) - 1 = a)
          \<longleftrightarrow> (val domain ! i > 0.5 \<and> tagOf (val domain ! i) = a + 1)" for i
    using tagOf_pos [of "val domain ! i"] by auto
  then show ?thesis
    by (simp add: bucket_def interiorEvents_def interiorNodes_def filter_map comp_def)
qed

lemma interiorEvents_bound:
  assumes "\<And>i. i < nat (sizeProd domain ! rank domain) \<Longrightarrow> val domain ! i > 0.5 \<Longrightarrow> tagOf (val domain ! i) \<le> nObj"
  shows "\<forall>e\<in>set (interiorEvents domain). fst e < nObj"
proof
  fix e assume "e \<in> set (interiorEvents domain)"
  then obtain i where i: "i < nat (sizeProd domain ! rank domain)" "val domain ! i > 0.5"
    and e: "e = (tagOf (val domain ! i) - 1, i)"
    by (auto simp: interiorEvents_def)
  from assms [OF i] tagOf_pos [OF i(2)] show "fst e < nObj" by (simp add: e)
qed

lemma oFillLookupTables_blocks:
  assumes "\<And>i. i < nat (sizeProd domain ! rank domain) \<Longrightarrow> val domain ! i > 0.5 \<Longrightarrow> tagOf (val domain ! i) \<le> nObj"
  shows "oFillLookupTables domain nObj
     = (concat (map (interiorNodes domain) [0..<nObj]), blockOffsets (interiorNodes domain) nObj)"
proof -
  have b: "bucket (interiorEvents domain) = interiorNodes domain"
    by (rule ext) (rule bucket_interiorEvents)
  show ?thesis
    using lookup_table [OF interiorEvents_bound, of domain nObj] assms
    by (simp add: oFillLookupTables_def Let_def countInterior_events fillInterior_events b)
qed

lemma concat_blocks_nth:
  assumes "a < N" "k < length (f a)"
  shows "concat (map f [0..<N]) ! (length (concat (map f [0..<a])) + k) = f a ! k"
proof -
  have "[0..<N] = [0..<a] @ a # [Suc a..<N]"
    using assms(1) by (metis upt_conv_Cons upt_add_eq_append le0 le_add_diff_inverse less_imp_le add_0)
  then have "concat (map f [0..<N]) = concat (map f [0..<a]) @ f a @ concat (map f [Suc a..<N])"
    by simp
  then show ?thesis using assms(2) by (simp add: nth_append)
qed

lemma blockOffsets_nth:
  "k \<le> N \<Longrightarrow> blockOffsets f N ! k = length (concat (map f [0..<k]))"
  by (simp add: blockOffsets_def less_Suc_eq_le del: upt_Suc)

lemma length_fst_fold_putNode: "length (fst (fold putNode es st)) = length (fst st)"
  by (induction es arbitrary: st) (auto simp: putNode_def)

lemma tagOf_floor: "v \<ge> 0 \<Longrightarrow> tagOf v = nat \<lfloor>v + 0.5\<rfloor>"
  by (simp add: tagOf_def c_int_def)

lemma tagOf_mono: "0 \<le> v \<Longrightarrow> v \<le> w \<Longrightarrow> tagOf v \<le> tagOf w"
proof -
  assume a: "0 \<le> v" "v \<le> w"
  then have "\<lfloor>v + 0.5\<rfloor> \<le> \<lfloor>w + 0.5\<rfloor>" by (intro floor_mono) simp
  then have "nat \<lfloor>v + 0.5\<rfloor> \<le> nat \<lfloor>w + 0.5\<rfloor>" by linarith
  with a show ?thesis by (simp only: tagOf_floor)
qed

lemma tagOf_of_nat: "tagOf (real n) = n"
proof -
  have "\<lfloor>real n + 0.5\<rfloor> = int n" by linarith
  then have "nat \<lfloor>real n + 0.5\<rfloor> = n" by linarith
  then show ?thesis by (simp only: tagOf_floor [of "real n", simplified])
qed

lemma localMaxTag_step:
  "(\<forall>i<m. vs ! i > 0.5 \<longrightarrow> tagOf (vs ! i) \<le> fold (\<lambda>i nObj. if vs ! i > real nObj then tagOf (vs ! i) else nObj) [0..<m] 0)"
proof (induction m)
  case 0
  then show ?case by simp
next
  case (Suc m)
  let ?r = "fold (\<lambda>i nObj. if vs ! i > real nObj then tagOf (vs ! i) else nObj) [0..<m] 0"
  let ?r' = "fold (\<lambda>i nObj. if vs ! i > real nObj then tagOf (vs ! i) else nObj) [0..<Suc m] 0"
  have r': "?r' = (if vs ! m > real ?r then tagOf (vs ! m) else ?r)" by simp
  have up: "?r \<le> ?r'"
  proof (cases "vs ! m > real ?r")
    case True
    then have "tagOf (real ?r) \<le> tagOf (vs ! m)" by (intro tagOf_mono) simp_all
    with True show ?thesis by (simp only: r' tagOf_of_nat if_True)
  next
    case False
    then show ?thesis by (simp only: r' if_False)
  qed
  have new: "vs ! m > 0.5 \<longrightarrow> tagOf (vs ! m) \<le> ?r'"
  proof (cases "vs ! m > real ?r")
    case True
    then show ?thesis by (simp only: r' if_True) simp
  next
    case False
    then have "vs ! m > 0.5 \<longrightarrow> tagOf (vs ! m) \<le> tagOf (real ?r)"
      by (auto intro!: tagOf_mono)
    with False show ?thesis by (simp only: r' if_False tagOf_of_nat)
  qed
  show ?case
  proof (intro allI impI)
    fix i assume i: "i < Suc m" and v: "vs ! i > 0.5"
    show "tagOf (vs ! i) \<le> ?r'"
    proof (cases "i = m")
      case True
      with new v show ?thesis by blast
    next
      case False
      with i have "i < m" by simp
      with Suc.IH v have "tagOf (vs ! i) \<le> ?r" by blast
      with up show ?thesis by linarith
    qed
  qed
qed

lemma localMaxTag_bound:
  "i < nat (sizeProd domain ! rank domain) \<Longrightarrow> val domain ! i > 0.5
   \<Longrightarrow> tagOf (val domain ! i) \<le> localMaxTag domain"
  using localMaxTag_step [of "nat (sizeProd domain ! rank domain)" "val domain"]
  by (simp add: localMaxTag_def)

lemma fold_max_ge: "(s::nat) \<le> fold max xs s \<and> (\<forall>x\<in>set xs. x \<le> fold max xs s)"
proof (induction xs arbitrary: s)
  case Nil
  then show ?case by simp
next
  case (Cons y ys)
  from Cons [of "max y s"] show ?case by (auto simp: max_def split: if_splits)
qed

lemma allreduceMax_ge: "x \<in> set xs \<Longrightarrow> x \<le> allreduceMax xs"
  using fold_max_ge [of 0 xs] by (simp add: allreduceMax_def)

lemma filter_eq_single:
  "filter (\<lambda>x. x = y) (filter P [0..<n]) = (if y < n \<and> P y then [y] else [])"
  by (induction n) auto

lemma block_slice:
  assumes "a < N"
  shows "map ((!) (concat (map f [0..<N])))
             [blockOffsets f N ! a..<blockOffsets f N ! (a + 1)] = f a"
proof (rule nth_equalityI)
  have o1: "blockOffsets f N ! Suc a = blockOffsets f N ! a + length (f a)"
    using assms by (simp add: blockOffsets_nth)
  show "length (map ((!) (concat (map f [0..<N]))) [blockOffsets f N ! a..<blockOffsets f N ! (a + 1)])
          = length (f a)"
    by (simp add: o1)
  fix k assume "k < length (map ((!) (concat (map f [0..<N]))) [blockOffsets f N ! a..<blockOffsets f N ! (a + 1)])"
  then have k: "k < length (f a)" by (simp add: o1)
  with assms show "map ((!) (concat (map f [0..<N]))) [blockOffsets f N ! a..<blockOffsets f N ! (a + 1)] ! k = f a ! k"
    using concat_blocks_nth [of a N k f] by (simp add: o1 blockOffsets_nth)
qed

lemma countSurface_counts:
  "countSurface domain nObj = 0 # map (\<lambda>a. length (acceptedNodes domain a)) [0..<nObj]"
proof (rule nth_equalityI)
  show "length (countSurface domain nObj) = length (0 # map (\<lambda>a. length (acceptedNodes domain a)) [0..<nObj])"
    by (simp add: countSurface_events length_fold_bump)
next
  fix k assume "k < length (countSurface domain nObj)"
  then have k: "k < nObj + 1" by (simp add: countSurface_events length_fold_bump)
  then show "countSurface domain nObj ! k = (0 # map (\<lambda>a. length (acceptedNodes domain a)) [0..<nObj]) ! k"
    using fold_bump_nth [of k "replicate (nObj + 1) 0" "surfaceEvents domain nObj"]
    by (cases k) (simp_all add: countSurface_events bucket_surfaceEvents)
qed

lemma surface_entry:
  assumes a: "a < nObj"
    and lo: "snd (oFindObjectSurfaceNodes domain nObj) ! a \<le> k"
    and hi: "k < snd (oFindObjectSurfaceNodes domain nObj) ! (a + 1)"
  shows "fst (oFindObjectSurfaceNodes domain nObj) ! k \<in> set (acceptedNodes domain a)"
proof -
  let ?B = "acceptedNodes domain"
  let ?o = "length (concat (map ?B [0..<a]))"
  have so: "snd (oFindObjectSurfaceNodes domain nObj) = blockOffsets ?B nObj"
    and ls: "fst (oFindObjectSurfaceNodes domain nObj) = concat (map ?B [0..<nObj])"
    by (simp_all add: oFindObjectSurfaceNodes_blocks)
  have oa: "blockOffsets ?B nObj ! a = ?o" using a by (simp add: blockOffsets_nth)
  have ob: "blockOffsets ?B nObj ! Suc a = ?o + length (?B a)" using a by (simp add: blockOffsets_nth)
  from lo hi have k: "k - ?o < length (?B a)" and k': "?o + (k - ?o) = k"
    by (simp_all add: so oa ob)
  from concat_blocks_nth [of a nObj "k - ?o" ?B] a k k'
  have "fst (oFindObjectSurfaceNodes domain nObj) ! k = ?B a ! (k - ?o)" by (simp add: ls)
  with k show ?thesis by simp
qed

subsection \<open>Ghost nodes on grids with one ghost layer\<close>

lemma smod_nonneg: "0 \<le> a \<Longrightarrow> 0 < b \<Longrightarrow> a smod b = a mod (b::int)"
  by (cases "a = 0") (simp_all add: signed_modulo_int_def)

lemma block_low:
  fixes A z r :: int
  assumes "0 < A" "0 \<le> z" "0 \<le> r" "r < A"
  shows "A * z + r < A \<longleftrightarrow> z = 0"
proof
  assume "A * z + r < A"
  show "z = 0"
  proof (rule ccontr)
    assume "z \<noteq> 0"
    with assms(2) have "1 \<le> z" by simp
    then have "A * 1 \<le> A * z" using assms(1) by (intro mult_left_mono) simp_all
    with \<open>A * z + r < A\<close> assms(3) show False by simp
  qed
next
  assume "z = 0"
  with assms show "A * z + r < A" by simp
qed

lemma block_high:
  fixes A z r m :: int
  assumes "0 < A" "z \<le> m" "0 \<le> r" "r < A"
  shows "A * z + r > A * m \<longleftrightarrow> z = m \<and> r > 0"
proof (cases "z = m")
  case True
  then show ?thesis by simp
next
  case False
  with assms(2) have "z + 1 \<le> m" by simp
  then have "A * (z + 1) \<le> A * m" using assms(1) by (intro mult_left_mono) simp_all
  then have "A * z + A \<le> A * m" by (simp add: algebra_simps)
  with assms(4) False show ?thesis by simp
qed

lemma coords:
  fixes node nx ny nz :: int
  assumes "0 < nx" "0 < ny" "0 \<le> node" "node < nx * ny * nz"
  shows "node mod (nx * ny) = nx * (node div nx mod ny) + node mod nx"
    and "node = nx * ny * (node div (nx * ny)) + node mod (nx * ny)"
    and "node div (nx * ny) mod nz = node div (nx * ny)"
    and "node mod (nx * ny) mod nx = node mod nx"
    and "0 \<le> node div (nx * ny)" "node div (nx * ny) \<le> nz - 1"
    and "0 \<le> node div nx mod ny" "node div nx mod ny \<le> ny - 1"
    and "0 \<le> node mod nx" "node mod nx < nx"
proof -
  have A: "0 < nx * ny" using assms by simp
  show "node mod (nx * ny) = nx * (node div nx mod ny) + node mod nx"
    using assms by (simp add: zmod_zmult2_eq)
  show "node = nx * ny * (node div (nx * ny)) + node mod (nx * ny)" by simp
  have z0: "0 \<le> node div (nx * ny)" using assms A by (simp add: pos_imp_zdiv_nonneg_iff)
  have z1: "node div (nx * ny) < nz"
  proof (rule ccontr)
    assume "\<not> node div (nx * ny) < nz"
    then have "nz \<le> node div (nx * ny)" by simp
    then have "nx * ny * nz \<le> nx * ny * (node div (nx * ny))"
      using A by (intro mult_left_mono) simp_all
    moreover have "nx * ny * (node div (nx * ny)) \<le> node"
    proof -
      have "0 \<le> node mod (nx * ny)" using A by simp
      moreover have "node = nx * ny * (node div (nx * ny)) + node mod (nx * ny)" by simp
      ultimately show ?thesis by linarith
    qed
    ultimately show False using assms(4) by simp
  qed
  show "node div (nx * ny) mod nz = node div (nx * ny)" using z0 z1 by simp
  show "node mod (nx * ny) mod nx = node mod nx" by (simp add: mod_mod_cancel)
  show "0 \<le> node div (nx * ny)" by (rule z0)
  show "node div (nx * ny) \<le> nz - 1" using z1 by simp
  show "0 \<le> node div nx mod ny" "node div nx mod ny \<le> ny - 1" using assms by simp_all
  show "0 \<le> node mod nx" "node mod nx < nx" using assms by simp_all
qed

lemma isGhostNode_unfold:
  assumes "oneLayerScalar grid nx ny nz" "2 \<le> nx" "1 \<le> ny" "0 \<le> node"
  shows "isGhostNode grid node \<longleftrightarrow>
       (node mod (nx * ny) mod nx > nx - 2 \<or> node mod (nx * ny) mod nx < 1
        \<or> node mod (nx * ny) < nx \<or> node mod (nx * ny) > nx * (ny - 2 + 1)
        \<or> node < nx * ny \<or> node > nx * ny * (nz - 2 + 1))"
proof -
  have A: "0 < nx * ny" "nx * ny \<noteq> 1" "nx \<noteq> 1" "0 < nx"
    using assms(2,3) by (auto simp: zmult_eq_1_iff)
  have m: "0 \<le> node mod (nx * ny)" using A by simp
  show ?thesis
    using assms A m
    by (auto simp: isGhostNode_def oneLayerScalar_def eval_nat_numeral smod_nonneg)
qed

lemma spec_ghost_unfold:
  assumes "oneLayerScalar grid nx ny nz"
  shows "spec_ghost grid node \<longleftrightarrow>
       (node mod nx < 1 \<or> node mod nx \<ge> nx - 1
        \<or> node div nx mod ny < 1 \<or> node div nx mod ny \<ge> ny - 1
        \<or> node div (nx * ny) mod nz < 1 \<or> node div (nx * ny) mod nz \<ge> nz - 1)"
  using assms
  by (auto simp: spec_ghost_def coordinate_def oneLayerScalar_def eval_nat_numeral upt_rec)

lemma isGhostNode_one_layer:
  assumes g: "oneLayerScalar grid nx ny nz" and nx: "2 \<le> nx" and ny: "1 \<le> ny"
    and node: "0 \<le> node" "node < nx * ny * nz"
  shows "isGhostNode grid node = spec_ghost grid node"
proof -
  define x where "x = node mod nx"
  define y where "y = node div nx mod ny"
  define z where "z = node div (nx * ny)"
  define n2 where "n2 = node mod (nx * ny)"
  have pos: "0 < nx" "0 < ny" "0 < nx * ny" using nx ny by simp_all
  note C = coords [OF pos(1,2) node]
  have n2: "n2 = nx * y + x" and nd: "node = nx * ny * z + n2"
    using C(1,2) by (simp_all add: x_def y_def z_def n2_def)
  have b: "0 \<le> x" "x < nx" "0 \<le> y" "y \<le> ny - 1" "0 \<le> z" "z \<le> nz - 1"
    using C by (simp_all add: x_def y_def z_def)
  have n2b: "0 \<le> n2" "n2 < nx * ny" using pos by (simp_all add: n2_def)
  have xy: "0 \<le> nx * y" using pos b by simp
  have c2lo: "n2 < nx \<longleftrightarrow> y = 0"
    unfolding n2 using block_low [OF pos(1) b(3) b(1) b(2)] .
  have c2hi: "n2 > nx * (ny - 1) \<longleftrightarrow> y = ny - 1 \<and> x > 0"
    unfolding n2 using block_high [OF pos(1) b(4) b(1) b(2)] .
  have c3lo: "node < nx * ny \<longleftrightarrow> z = 0"
    using block_low [OF pos(3) b(5) n2b] nd by simp
  have c3hi: "node > nx * ny * (nz - 1) \<longleftrightarrow> z = nz - 1 \<and> n2 > 0"
    using block_high [OF pos(3) b(6) n2b] nd by simp
  have code: "isGhostNode grid node \<longleftrightarrow>
      (x > nx - 2 \<or> x < 1 \<or> n2 < nx \<or> n2 > nx * (ny - 1) \<or> node < nx * ny \<or> node > nx * ny * (nz - 1))"
    using isGhostNode_unfold [OF g nx ny node(1)] C(4) by (simp add: x_def n2_def)
  have spec: "spec_ghost grid node \<longleftrightarrow>
      (x < 1 \<or> x \<ge> nx - 1 \<or> y < 1 \<or> y \<ge> ny - 1 \<or> z < 1 \<or> z \<ge> nz - 1)"
    using spec_ghost_unfold [OF g, of node] C(3) by (simp add: x_def y_def z_def)
  have zero: "n2 = 0 \<Longrightarrow> x = 0" using n2 xy b(1) by linarith
  show ?thesis
    unfolding code spec c2lo c2hi c3lo c3hi using b zero n2b(1) by (cases "n2 = 0") auto
qed

lemma stencil_inside:
  assumes g: "oneLayerScalar grid nx ny nz" and nx: "2 \<le> nx" and ny: "1 \<le> ny"
    and node: "0 \<le> node" "node < nx * ny * nz"
    and ng: "\<not> isGhostNode grid node"
  shows "list_all (\<lambda>i. 0 \<le> i \<and> i < nx * ny * nz) (sampledNodes (sizeProd grid) node)"
proof -
  define x where "x = node mod nx"
  define y where "y = node div nx mod ny"
  define z where "z = node div (nx * ny)"
  have pos: "0 < nx" "0 < ny" "0 < nx * ny" using nx ny by simp_all
  note C = coords [OF pos(1,2) node]
  have nd: "node = nx * ny * z + (nx * y + x)"
    using C(1,2) by (simp add: x_def y_def z_def)
  from ng have "\<not> spec_ghost grid node"
    using isGhostNode_one_layer [OF g nx ny node] by simp
  then have b: "1 \<le> x" "1 \<le> y" "1 \<le> z"
    using spec_ghost_unfold [OF g, of node] C(3) by (simp_all add: x_def y_def z_def)
  have "nx * ny * 1 \<le> nx * ny * z" using pos(3) b(3) by (intro mult_left_mono) simp_all
  moreover have "nx * 1 \<le> nx * y" using pos(1) b(2) by (intro mult_left_mono) simp_all
  ultimately have lo: "nx * ny + nx + 1 \<le> node" using nd b(1) by simp
  have sp: "sizeProd grid ! Suc 0 = 1" "sizeProd grid ! 2 = nx" "sizeProd grid ! 3 = nx * ny"
    using g by (simp_all add: oneLayerScalar_def eval_nat_numeral)
  have p: "0 \<le> nx * ny" "0 \<le> nx" using pos by simp_all
  show ?thesis
    using lo node(2) p by (simp add: sampledNodes_def sp)
qed

lemma hasTag_round:
  assumes "frac x \<noteq> 1 / 2"
  shows "(real a + 0.5 < x \<and> x < real a + 1.5) \<longleftrightarrow> round x = int a + 1"
proof -
  have ne: "x \<noteq> real a + 1 / 2"
  proof
    assume "x = real a + 1 / 2"
    then have "x - 1 / 2 = real_of_int (int a)" by simp
    then have "x - 1 / 2 \<in> \<int>" by (simp only: Ints_of_int)
    then have "frac x = 1 / 2" unfolding frac_unique_iff by simp
    with assms show False by simp
  qed
  have "round x = int a + 1 \<longleftrightarrow> real_of_int (int a + 1) \<le> x + 1 / 2 \<and> x + 1 / 2 < real_of_int (int a + 1) + 1"
    unfolding round_def by (rule floor_eq_iff)
  also have "\<dots> \<longleftrightarrow> real a + 1 / 2 \<le> x \<and> x < real a + 3 / 2" by auto
  also have "\<dots> \<longleftrightarrow> real a + 0.5 < x \<and> x < real a + 1.5" using ne by auto
  finally show ?thesis by simp
qed

lemma acceptedNodes_spec:
  assumes g: "oneLayerScalar domain nx ny nz" and nx: "2 \<le> nx" and ny: "1 \<le> ny"
    and len: "length (val domain) = nat (nx * ny * nz)" and nh: "noHalfTags domain"
  shows "acceptedNodes domain a = spec_surfaceNodes domain a"
  unfolding acceptedNodes_def spec_surfaceNodes_def
proof (rule filter_cong [OF refl])
  fix b assume "b \<in> set [0..<nat (sizeProd domain ! rank domain)]"
  moreover have "sizeProd domain ! rank domain = nx * ny * nz"
    using g by (simp add: oneLayerScalar_def eval_nat_numeral)
  ultimately have b: "0 \<le> int b" "int b < nx * ny * nz" by simp_all
  have gh: "isGhostNode domain (int b) = spec_ghost domain (int b)"
    using isGhostNode_one_layer [OF g nx ny b] .
  show "(\<not> isGhostNode domain (int b)
          \<and> 0 < sampledCount domain a (int b) \<and> sampledCount domain a (int b) < 8)
      = (\<not> spec_ghost domain (int b)
          \<and> 0 < spec_count domain a (int b) \<and> spec_count domain a (int b) < 8)"
  proof (cases "isGhostNode domain (int b)")
    case True
    then show ?thesis using gh by simp
  next
    case False
    have "filter (hasTag (val domain) a) (sampledNodes (sizeProd domain) (int b))
            = filter (\<lambda>i. spec_tag (val domain ! nat i) = int a + 1) (sampledNodes (sizeProd domain) (int b))"
    proof (rule filter_cong [OF refl])
      fix i assume "i \<in> set (sampledNodes (sizeProd domain) (int b))"
      with stencil_inside [OF g nx ny b False] have "0 \<le> i" "i < nx * ny * nz"
        by (simp_all add: list_all_iff)
      then have "nat i < length (val domain)" using len by simp
      then have "frac (val domain ! nat i) \<noteq> 1 / 2"
        using nh by (simp add: noHalfTags_def list_all_length)
      from hasTag_round [OF this, of a]
      show "hasTag (val domain) a i = (spec_tag (val domain ! nat i) = int a + 1)"
        by (simp add: hasTag_def spec_tag_def)
    qed
    then show ?thesis using False gh by (simp add: sampledCount_def spec_count_def)
  qed
qed

subsection \<open>The object built by oAlloc and the interior table\<close>

lemma oAlloc_fields:
  "oAlloc domains mpiRank = Inr ob \<Longrightarrow>
     nObjects ob = allreduceMax (map localMaxTag domains)
     \<and> lookupInterior ob = fst (oFillLookupTables (domains ! mpiRank) (nObjects ob))
     \<and> lookupInteriorOffset ob = snd (oFillLookupTables (domains ! mpiRank) (nObjects ob))
     \<and> lookupSurface ob = fst (oFindObjectSurfaceNodes (domains ! mpiRank) (nObjects ob))
     \<and> lookupSurfaceOffset ob = snd (oFindObjectSurfaceNodes (domains ! mpiRank) (nObjects ob))"
  by (auto simp: oAlloc_def Let_def)

lemma oAlloc_tags:
  assumes "mpiRank < length domains" "oAlloc domains mpiRank = Inr ob"
    and "i < nat (sizeProd (domains ! mpiRank) ! rank (domains ! mpiRank))"
    and "val (domains ! mpiRank) ! i > 0.5"
  shows "tagOf (val (domains ! mpiRank) ! i) \<le> nObjects ob"
proof -
  have "localMaxTag (domains ! mpiRank) \<in> set (map localMaxTag domains)"
    using assms(1) by simp
  then have "localMaxTag (domains ! mpiRank) \<le> nObjects ob"
    using oAlloc_fields [OF assms(2)] allreduceMax_ge by metis
  with localMaxTag_bound [OF assms(3,4)] show ?thesis by linarith
qed

lemma oAlloc_interior:
  assumes "mpiRank < length domains" "oAlloc domains mpiRank = Inr ob"
  shows "lookupInterior ob = concat (map (interiorNodes (domains ! mpiRank)) [0..<nObjects ob])"
    and "lookupInteriorOffset ob = blockOffsets (interiorNodes (domains ! mpiRank)) (nObjects ob)"
  using oAlloc_fields [OF assms(2)] oFillLookupTables_blocks [OF oAlloc_tags [OF assms]]
  by simp_all

lemma fold_add_filter:
  "fold (\<lambda>x cc. if P x then g cc else cc) xs cc = fold (\<lambda>x. g) (filter P xs) cc"
  by (induction xs arbitrary: cc) auto

lemma collect_block:
  assumes "lookupInterior ob = concat (map B [0..<nObjects ob])"
    and "lookupInteriorOffset ob = blockOffsets B (nObjects ob)"
    and "a < nObjects ob"
  shows "fold (\<lambda>b cc. if int (lookupInterior ob ! b) = p then cc[a := cc ! a + q] else cc)
              [lookupInteriorOffset ob ! a..<lookupInteriorOffset ob ! (a + 1)] cc
         = fold (\<lambda>x cc. cc[a := cc ! a + q]) (filter (\<lambda>x. int x = p) (B a)) cc"
proof -
  have "fold (\<lambda>b cc. if int (lookupInterior ob ! b) = p then cc[a := cc ! a + q] else cc)
              [lookupInteriorOffset ob ! a..<lookupInteriorOffset ob ! (a + 1)] cc
        = fold ((\<lambda>x cc. if int x = p then cc[a := cc ! a + q] else cc) \<circ> ((!) (lookupInterior ob)))
              [lookupInteriorOffset ob ! a..<lookupInteriorOffset ob ! (a + 1)] cc"
    by (simp add: comp_def)
  also have "\<dots> = fold (\<lambda>x cc. if int x = p then cc[a := cc ! a + q] else cc)
              (map ((!) (lookupInterior ob)) [lookupInteriorOffset ob ! a..<lookupInteriorOffset ob ! (a + 1)]) cc"
    by (simp only: fold_map)
  also have "\<dots> = fold (\<lambda>x cc. if int x = p then cc[a := cc ! a + q] else cc) (B a) cc"
    using block_slice [OF assms(3), of B] by (simp only: assms(1,2))
  also have "\<dots> = fold (\<lambda>x cc. cc[a := cc ! a + q]) (filter (\<lambda>x. int x = p) (B a)) cc"
    by (rule fold_add_filter)
  finally show ?thesis .
qed

lemma interior_match:
  "filter (\<lambda>x. int x = p) (interiorNodes domain a)
     = (if 0 \<le> p \<and> p < sizeProd domain ! rank domain \<and> val domain ! nat p > 0.5
           \<and> tagOf (val domain ! nat p) = a + 1
        then [nat p] else [])"
proof (cases "0 \<le> p")
  case True
  have e: "(\<lambda>x. int x = p) = (\<lambda>x. x = nat p)" using True by auto
  have "filter (\<lambda>x. int x = p) (interiorNodes domain a)
          = filter (\<lambda>x. x = nat p)
              (filter (\<lambda>i. val domain ! i > 0.5 \<and> tagOf (val domain ! i) = a + 1)
                      [0..<nat (sizeProd domain ! rank domain)])"
    by (simp only: e interiorNodes_def)
  also have "\<dots> = (if nat p < nat (sizeProd domain ! rank domain)
                        \<and> (val domain ! nat p > 0.5 \<and> tagOf (val domain ! nat p) = a + 1)
                     then [nat p] else [])"
    by (rule filter_eq_single)
  also have "\<dots> = (if 0 \<le> p \<and> p < sizeProd domain ! rank domain \<and> val domain ! nat p > 0.5
           \<and> tagOf (val domain ! nat p) = a + 1
        then [nat p] else [])"
    using True by auto
  finally show ?thesis .
next
  case False
  then have "filter (\<lambda>x. int x = p) xs = []" for xs :: "nat list"
    by (induction xs) auto
  with False show ?thesis by simp
qed

lemma collect_objects:
  assumes t: "C \<Longrightarrow> 1 \<le> t \<and> t \<le> N"
  shows "fold (\<lambda>a cc. fold (\<lambda>x cc. cc[a := cc ! a + q]) (if C \<and> t = a + 1 then [x0] else []) cc)
              [0..<N] (cc::real list)
         = (if C then cc[t - 1 := cc ! (t - 1) + q] else cc)"
proof -
  have "(\<lambda>a cc. fold (\<lambda>x cc. cc[a := cc ! a + q]) (if C \<and> t = a + 1 then [x0] else []) cc)
          = (\<lambda>a (cc::real list). if (\<lambda>a. a = t - 1 \<and> C) a then cc[a := cc ! a + q] else cc)"
    using t by (auto simp: fun_eq_iff)
  then have "fold (\<lambda>a cc. fold (\<lambda>x cc. cc[a := cc ! a + q]) (if C \<and> t = a + 1 then [x0] else []) cc)
              [0..<N] cc
        = fold (\<lambda>a cc. cc[a := cc ! a + q]) (filter (\<lambda>a. a = t - 1 \<and> C) [0..<N]) cc"
    by (simp only: fold_if_filter)
  also have "filter (\<lambda>a. a = t - 1 \<and> C) [0..<N] = filter (\<lambda>a. a = t - 1) (filter (\<lambda>a. C) [0..<N])"
    by (simp add: conj_commute)
  also have "\<dots> = (if t - 1 < N \<and> C then [t - 1] else [])"
    by (rule filter_eq_single)
  finally show ?thesis using t by auto
qed


lemma length_one_update: "length (xs::nat list) = 1 \<Longrightarrow> xs[0 := 0] = [0]"
  by (cases xs) auto

lemma oFillLookupTables_none: "oFillLookupTables domain 0 = ([], [0])"
proof -
  have "length (countInterior domain 0) = 1"
    by (simp add: countInterior_events length_fold_bump)
  then have off: "alCumSum (countInterior domain 0) 0 = [0]"
    by (simp add: alCumSum_def length_one_update)
  have "length (fst (fillInterior domain ([], []))) = 0"
    by (simp add: fillInterior_events length_fst_fold_putNode)
  then show ?thesis by (simp add: oFillLookupTables_def off)
qed

lemma oFindObjectSurfaceNodes_none: "oFindObjectSurfaceNodes domain 0 = ([], [0])"
  by (simp add: oFindObjectSurfaceNodes_blocks blockOffsets_def)

subsection \<open>The gathered offsets\<close>

lemma shift_step:
  assumes "length cs = P" "m \<le> P"
  shows "length (fold (\<lambda>i l. l[i + 1 := l ! i]) (rev [m..<P]) (cs @ [0::nat])) = P + 1
       \<and> (\<forall>k\<le>P. fold (\<lambda>i l. l[i + 1 := l ! i]) (rev [m..<P]) (cs @ [0]) ! k
                  = (if k \<le> m then (cs @ [0]) ! k else cs ! (k - 1)))"
  using assms(2)
proof (induction m rule: inc_induct)
  case base
  then show ?case using assms(1) by simp
next
  case (step n)
  let ?F = "fold (\<lambda>i l. l[i + 1 := l ! i]) (rev [Suc n..<P]) (cs @ [0::nat])"
  have F: "fold (\<lambda>i l. l[i + 1 := l ! i]) (rev [n..<P]) (cs @ [0]) = ?F[n + 1 := ?F ! n]"
    using step.hyps by (simp add: upt_conv_Cons)
  from step.IH have len: "length ?F = P + 1"
    and nth: "\<And>k. k \<le> P \<Longrightarrow> ?F ! k = (if k \<le> Suc n then (cs @ [0]) ! k else cs ! (k - 1))"
    by auto
  have n: "(cs @ [0]) ! n = cs ! n" using step.hyps assms(1) by (simp add: nth_append)
  show ?case
    unfolding F using len nth n step.hyps by (auto simp: nth_list_update nth_append)
qed

lemma gatherRow_nth:
  assumes "k \<le> length sOffs"
  shows "gatherRow sOffs a ! k = sum_list (take k (localCounts sOffs a))"
    and "length (gatherRow sOffs a) = length sOffs + 1"
proof -
  let ?P = "length sOffs"
  let ?cs = "localCounts sOffs a"
  let ?l = "(fold (\<lambda>i l. l[i + 1 := l ! i]) (rev [0..<?P]) (?cs @ [0]))[0 := 0]"
  have lcs: "length ?cs = ?P" by (simp add: localCounts_def)
  note S = shift_step [OF lcs, of 0]
  have len: "length ?l = ?P + 1" using S by simp
  have tl: "tl ?l = ?cs"
  proof (rule nth_equalityI)
    show "length (tl ?l) = length ?cs" using len lcs by simp
    fix k assume "k < length (tl ?l)"
    then have "k < ?P" using len by simp
    then show "tl ?l ! k = ?cs ! k" using S len by (simp add: nth_tl)
  qed
  have g: "gatherRow sOffs a = alCumSum ?l ?P"
    by (simp add: gatherRow_def Let_def localCounts_def)
  show "gatherRow sOffs a ! k = sum_list (take k ?cs)"
    unfolding g using alCumSum_nth [OF len assms] tl by simp
  show "length (gatherRow sOffs a) = ?P + 1"
    unfolding g using length_alCumSum [OF len] .
qed

lemma length_concat_rows:
  "(\<And>a. length (f a) = c) \<Longrightarrow> length (concat (map f [0..<a])) = a * c"
  by (induction a) simp_all

lemma nodCorGlob_nth:
  assumes "a < N" "r \<le> length sOffs"
  shows "fst (oGatherSurfaceNodes N sOffs) ! (a * (length sOffs + 1) + r)
           = sum_list (take r (localCounts sOffs a))"
proof -
  have len: "length (gatherRow sOffs a') = length sOffs + 1" for a'
    using gatherRow_nth(2) [of 0 sOffs a'] by simp
  have r: "r < length (gatherRow sOffs a)" using assms(2) len by simp
  have "fst (oGatherSurfaceNodes N sOffs) = concat (map (gatherRow sOffs) [0..<N])"
    by (simp add: oGatherSurfaceNodes_def Let_def)
  then show ?thesis
    using concat_blocks_nth [of a N r "gatherRow sOffs"] assms r
      length_concat_rows [of "gatherRow sOffs" "length sOffs + 1" a] len gatherRow_nth(1) [OF assms(2)]
    by simp
qed

subsection \<open>Sums over the ranks\<close>

lemma ranks_telescope:
  fixes h :: "nat \<Rightarrow> real"
  assumes mono: "\<And>r. r < P \<Longrightarrow> pre r \<le> pre (Suc r)" and zero: "pre 0 = 0"
  shows "n \<le> P \<Longrightarrow> (\<Sum>r<n. \<Sum>j = pre r..<pre (Suc r). h j) = (\<Sum>j<pre n. h j)"
proof (induction n)
  case 0
  then show ?case by (simp add: zero)
next
  case (Suc n)
  then have n: "n < P" by simp
  have "(\<Sum>j<pre (Suc n). h j) = (\<Sum>j<pre n. h j) + (\<Sum>j = pre n..<pre (Suc n). h j)"
    using sum.atLeastLessThan_concat [of 0 "pre n" "pre (Suc n)" h] mono [OF n]
    by (simp add: lessThan_atLeast0)
  with Suc show ?case by simp
qed

lemma pre_mono:
  assumes mono: "\<And>r. r < P \<Longrightarrow> pre r \<le> pre (Suc r)"
  shows "m \<le> n \<Longrightarrow> n \<le> P \<Longrightarrow> (pre m :: nat) \<le> pre n"
proof (induction n)
  case 0
  then show ?case by simp
next
  case (Suc n)
  show ?case
  proof (cases "m = Suc n")
    case True
    then show ?thesis by simp
  next
    case False
    with Suc have "pre m \<le> pre n" by simp
    moreover have "pre n \<le> pre (Suc n)" using Suc.prems by (intro mono) simp
    ultimately show ?thesis by (rule le_trans)
  qed
qed

lemma rank_indicator:
  fixes h :: "nat \<Rightarrow> real"
  assumes "(e::nat) \<le> T"
  shows "(\<Sum>j = b..<e. h j) = (\<Sum>j<T. if b \<le> j \<and> j < e then h j else 0)"
proof -
  have "(\<Sum>j<T. if b \<le> j \<and> j < e then h j else 0) = (\<Sum>j\<in>{..<T} \<inter> {b..<e}. h j)"
    by (subst sum.inter_restrict) (auto intro: sum.cong)
  moreover have "{..<T} \<inter> {b..<e} = {b..<e}" using assms by auto
  ultimately show ?thesis by simp
qed

lemma correction_sums_zero:
  fixes K :: "nat \<Rightarrow> nat \<Rightarrow> real" and psi :: "nat \<Rightarrow> nat \<Rightarrow> real" and S :: real
  assumes mono: "\<And>r. r < P \<Longrightarrow> pre r \<le> pre (Suc r)" and zero: "pre 0 = 0" and T: "pre P = T"
    and inv: "S * (\<Sum>i<T. \<Sum>j<T. K j i) = 1"
    and phic: "phic = (\<Sum>r<P. (\<Sum>i<T. \<Sum>j = pre r..<pre (Suc r). K j i * psi r j) * S)"
    and delta: "\<And>j. j < T \<Longrightarrow> delta j = (\<Sum>r<P. if pre r \<le> j \<and> j < pre (Suc r) then phic - psi r j else 0)"
    and rc: "\<And>i. i < T \<Longrightarrow> rc i = (\<Sum>r<P. \<Sum>j = pre r..<pre (Suc r). K j i * delta j)"
  shows "(\<Sum>i<T. rc i) = 0" and "(\<Sum>r<P. \<Sum>j = pre r..<pre (Suc r). rc j) = 0"
proof -
  define Psi where "Psi j = (\<Sum>r<P. if pre r \<le> j \<and> j < pre (Suc r) then psi r j else 0)" for j
  define X where "X = (\<Sum>r<P. \<Sum>i<T. \<Sum>j = pre r..<pre (Suc r). K j i * psi r j)"
  have tel: "(\<Sum>r<P. \<Sum>j = pre r..<pre (Suc r). h j) = (\<Sum>j<T. h j)" for h :: "nat \<Rightarrow> real"
    using ranks_telescope [of P pre P h] mono zero T by simp
  have eT: "pre (Suc r) \<le> T" if "r < P" for r
    using pre_mono [of P pre "Suc r" P] mono that T by simp
  have ind: "(\<Sum>j = pre r..<pre (Suc r). h j) = (\<Sum>j<T. if pre r \<le> j \<and> j < pre (Suc r) then h j else 0)"
    if "r < P" for r and h :: "nat \<Rightarrow> real"
    using rank_indicator [OF eT [OF that]] .
  have cnt: "(\<Sum>r<P. if pre r \<le> j \<and> j < pre (Suc r) then 1 else 0) = (1::real)" if "j < T" for j
  proof -
    have "(\<Sum>r<P. if pre r \<le> j \<and> j < pre (Suc r) then 1 else 0)
            = (\<Sum>r<P. \<Sum>j' = pre r..<pre (Suc r). if j' = j then 1 else (0::real))"
      by (rule sum.cong) (auto simp: sum.delta)
    also have "\<dots> = (\<Sum>j'<T. if j' = j then 1 else 0)" by (rule tel)
    also have "\<dots> = 1" using that by (simp add: sum.delta)
    finally show ?thesis .
  qed
  have dl: "delta j = phic - Psi j" if "j < T" for j
  proof -
    have "delta j = (\<Sum>r<P. phic * (if pre r \<le> j \<and> j < pre (Suc r) then 1 else 0)
                         - (if pre r \<le> j \<and> j < pre (Suc r) then psi r j else 0))"
      unfolding delta [OF that] by (rule sum.cong) auto
    also have "\<dots> = phic * (\<Sum>r<P. if pre r \<le> j \<and> j < pre (Suc r) then 1 else 0) - Psi j"
      by (simp add: sum_subtractf sum_distrib_left Psi_def)
    finally show ?thesis using cnt [OF that] by simp
  qed
  have pX: "phic = X * S"
    unfolding phic X_def by (simp add: sum_distrib_right)
  have KPsi: "(\<Sum>i<T. \<Sum>j<T. K j i * Psi j) = X"
  proof -
    have "(\<Sum>i<T. \<Sum>j<T. K j i * Psi j)
            = (\<Sum>i<T. \<Sum>j<T. \<Sum>r<P. if pre r \<le> j \<and> j < pre (Suc r) then K j i * psi r j else 0)"
      unfolding Psi_def by (simp add: sum_distrib_left if_distrib [of "\<lambda>x. _ * x"] cong: if_cong)
    also have "\<dots> = (\<Sum>i<T. \<Sum>r<P. \<Sum>j<T. if pre r \<le> j \<and> j < pre (Suc r) then K j i * psi r j else 0)"
      by (rule sum.cong [OF refl]) (rule sum.swap)
    also have "\<dots> = (\<Sum>i<T. \<Sum>r<P. \<Sum>j = pre r..<pre (Suc r). K j i * psi r j)"
    proof (rule sum.cong [OF refl], rule sum.cong [OF refl])
      fix i r assume "r \<in> {..<P}"
      then have r: "r < P" by simp
      show "(\<Sum>j<T. if pre r \<le> j \<and> j < pre (Suc r) then K j i * psi r j else 0)
              = (\<Sum>j = pre r..<pre (Suc r). K j i * psi r j)"
        using ind [OF r, of "\<lambda>j. K j i * psi r j"] by simp
    qed
    also have "\<dots> = X" unfolding X_def by (rule sum.swap)
    finally show ?thesis .
  qed
  have "(\<Sum>i<T. rc i) = (\<Sum>i<T. \<Sum>j<T. K j i * delta j)"
    by (intro sum.cong refl) (simp add: rc tel)
  also have "\<dots> = (\<Sum>i<T. \<Sum>j<T. K j i * (phic - Psi j))"
    by (intro sum.cong refl) (simp add: dl)
  also have "\<dots> = phic * (\<Sum>i<T. \<Sum>j<T. K j i) - (\<Sum>i<T. \<Sum>j<T. K j i * Psi j)"
    by (simp add: right_diff_distrib sum_subtractf sum_distrib_left mult.commute)
  also have "\<dots> = X * (S * (\<Sum>i<T. \<Sum>j<T. K j i)) - X"
    by (simp add: pX KPsi)
  also have "\<dots> = 0" by (simp add: inv)
  finally show z: "(\<Sum>i<T. rc i) = 0" .
  show "(\<Sum>r<P. \<Sum>j = pre r..<pre (Suc r). rc j) = 0"
    using tel [of rc] z by simp
qed

subsection \<open>The charge correction, object by object\<close>

lemma fold_add_length:
  "length (fold (\<lambda>j r. r[g j := r ! g j + c j]) js (rho::real list)) = length rho"
  by (induction js arbitrary: rho) auto

lemma fold_add_frame:
  "n \<notin> g ` set js \<Longrightarrow> fold (\<lambda>j r. r[g j := r ! g j + c j]) js (rho::real list) ! n = rho ! n"
  by (induction js arbitrary: rho) auto

lemma offsets_unfold:
  assumes og: "offsetsGathered ws" and r: "r < length ws" and a: "a < nObjects (object (hd ws))"
  shows "nObjects (object (ws ! r)) = nObjects (object (hd ws))"
    and "totSNGlob (object (ws ! r)) (length ws) a = prefixCount ws a (length ws)"
    and "beginIndex (object (ws ! r)) (length ws) r a = prefixCount ws a r"
    and "endIndex (object (ws ! r)) (length ws) r a = prefixCount ws a (Suc r)"
proof -
  let ?sOffs = "map (\<lambda>w. lookupSurfaceOffset (object w)) ws"
  let ?N = "nObjects (object (hd ws))"
  from og r show n: "nObjects (object (ws ! r)) = ?N"
    by (simp add: offsetsGathered_def list_all_length)
  from og r have G: "capMatrixAllOffsets (object (ws ! r)) = fst (oGatherSurfaceNodes ?N ?sOffs)"
    by (simp add: offsetsGathered_def list_all_length)
  have nth: "fst (oGatherSurfaceNodes ?N ?sOffs) ! (a * (length ws + 1) + k) = prefixCount ws a k"
    if "k \<le> length ws" for k
    using nodCorGlob_nth [of a ?N k ?sOffs] a that by (simp add: prefixCount_def)
  show "totSNGlob (object (ws ! r)) (length ws) a = prefixCount ws a (length ws)"
    using nth [of "length ws"] by (simp add: totSNGlob_def G)
  show "beginIndex (object (ws ! r)) (length ws) r a = prefixCount ws a r"
    using nth [of r] r by (simp add: beginIndex_def G)
  show "endIndex (object (ws ! r)) (length ws) r a = prefixCount ws a (Suc r)"
    using nth [of "Suc r"] r by (simp add: endIndex_def G)
qed

lemma prefixCount_Suc:
  "r < length ws \<Longrightarrow>
   prefixCount ws a (Suc r)
     = prefixCount ws a r
       + (lookupSurfaceOffset (object (ws ! r)) ! (a + 1) - lookupSurfaceOffset (object (ws ! r)) ! a)"
  by (simp add: prefixCount_def localCounts_def take_Suc_conv_app_nth)

lemma prefixCount_0: "prefixCount ws a 0 = 0"
  by (simp add: prefixCount_def)

lemma surfNode_in_blocks:
  assumes og: "offsetsGathered ws" and r: "r < length ws" and a: "a < nObjects (object (hd ws))"
    and j: "prefixCount ws a r \<le> j" "j < prefixCount ws a (Suc r)"
  shows "surfNode (object (ws ! r)) (length ws) r a j \<in> set (surfaceBlocks (object (ws ! r)))"
proof -
  let ?ob = "object (ws ! r)"
  let ?so = "lookupSurfaceOffset ?ob"
  let ?k = "?so ! a + j - prefixCount ws a r"
  note U = offsets_unfold [OF og r a]
  have k: "?so ! a \<le> ?k" "?k < ?so ! (a + 1)"
    using j prefixCount_Suc [OF r, of a] by simp_all
  have "lookupSurface ?ob ! ?k \<in> set (map ((!) (lookupSurface ?ob)) [?so ! a..<?so ! (a + 1)])"
    using k by simp
  moreover have "a \<in> set [0..<nObjects ?ob]" using a U(1) by simp
  ultimately have "lookupSurface ?ob ! ?k \<in> set (surfaceBlocks ?ob)"
    unfolding surfaceBlocks_def by (simp del: set_upt) blast
  then show ?thesis by (simp add: surfNode_def U(3))
qed

lemma applyObject_basic:
  "length (applyObject a ws) = length ws"
  "r < length ws \<Longrightarrow> phiVal (applyObject a ws ! r) = phiVal (ws ! r)"
  "r < length ws \<Longrightarrow> object (applyObject a ws ! r) = object (ws ! r)"
  "r < length ws \<Longrightarrow> length (rhoVal (applyObject a ws ! r)) = length (rhoVal (ws ! r))"
  by (simp_all add: applyObject_def addCorrection_def Let_def fold_add_length)

lemma applyObject_frame:
  assumes og: "offsetsGathered ws" and r: "r < length ws" and a: "a < nObjects (object (hd ws))"
    and n: "n \<notin> set (surfaceBlocks (object (ws ! r)))"
  shows "rhoVal (applyObject a ws ! r) ! n = rhoVal (ws ! r) ! n"
proof -
  note U = offsets_unfold [OF og r a]
  have "n \<notin> surfNode (object (ws ! r)) (length ws) r a
               ` set [prefixCount ws a r..<prefixCount ws a (Suc r)]"
    using surfNode_in_blocks [OF og r a] n by auto
  then show ?thesis
    using r by (simp add: applyObject_def addCorrection_def Let_def U fold_add_frame del: set_upt)
qed

lemma applyObject_objects: "map object (applyObject a ws) = map object ws"
  by (rule nth_equalityI) (simp_all add: applyObject_basic)

lemma offsetsGathered_cong:
  assumes "map object ws' = map object ws"
  shows "offsetsGathered ws' = offsetsGathered ws"
proof -
  have l: "length ws' = length ws" using assms by (metis length_map)
  have h: "ws \<noteq> [] \<Longrightarrow> object (hd ws') = object (hd ws)"
    using assms l by (metis hd_map length_0_conv)
  have m: "map (\<lambda>w. lookupSurfaceOffset (object w)) ws' = map (\<lambda>w. lookupSurfaceOffset (object w)) ws"
    using arg_cong [OF assms, of "map lookupSurfaceOffset"] by (simp add: comp_def)
  have n: "i < length ws \<Longrightarrow> object (ws' ! i) = object (ws ! i)" for i
    using assms l by (metis nth_map)
  show ?thesis
  proof (cases "ws = []")
    case True
    with l show ?thesis by (simp add: offsetsGathered_def)
  next
    case False
    show ?thesis
      unfolding offsetsGathered_def list_all_length using h [OF False] m n l by auto
  qed
qed

lemma sum_list_update_add:
  "k < length xs \<Longrightarrow> sum_list (xs[k := xs ! k + c]) = sum_list xs + (c::real)"
proof (induction xs arbitrary: k)
  case Nil
  then show ?case by simp
next
  case (Cons x xs)
  then show ?case by (cases k) simp_all
qed

lemma fold_add_sum:
  "\<forall>j\<in>set js. g j < length rho \<Longrightarrow>
   sum_list (fold (\<lambda>j r. r[g j := r ! g j + c j]) js (rho::real list)) = sum_list rho + (\<Sum>j\<leftarrow>js. c j)"
proof (induction js arbitrary: rho)
  case Nil
  then show ?case by simp
next
  case (Cons j js)
  have "sum_list (fold (\<lambda>j r. r[g j := r ! g j + c j]) js (rho[g j := rho ! g j + c j]))
          = sum_list (rho[g j := rho ! g j + c j]) + (\<Sum>j\<leftarrow>js. c j)"
    using Cons.prems by (intro Cons.IH) simp
  then show ?case using Cons.prems by (simp add: sum_list_update_add)
qed

lemma fold_set_nth:
  "e \<le> length d \<Longrightarrow>
   length (fold (\<lambda>j d. d[j := g j]) [b..<e] (d::real list)) = length d
   \<and> (\<forall>k<length d. fold (\<lambda>j d. d[j := g j]) [b..<e] d ! k = (if b \<le> k \<and> k < e then g k else d ! k))"
proof (induction e)
  case 0
  then show ?case by simp
next
  case (Suc e)
  show ?case
  proof (cases "b \<le> e")
    case True
    with Suc show ?thesis by (auto simp: nth_list_update)
  next
    case False
    then show ?thesis by simp
  qed
qed

lemma sum_list_ranks: "(\<Sum>r\<leftarrow>[0..<n]. f r) = (\<Sum>r<n. (f r :: real))"
  by (simp add: interv_sum_list_conv_sum_set_nat atLeast0LessThan)

lemma sum_list_range: "(\<Sum>j\<leftarrow>[b..<e]. f j) = (\<Sum>j = b..<e. (f j :: real))"
  by (simp add: interv_sum_list_conv_sum_set_nat)

lemma sum_list_nth_real: "sum_list (xs::real list) = (\<Sum>i<length xs. xs ! i)"
  by (simp add: sum_list_sum_nth atLeast0LessThan)

lemma sum_list_map_nth: "(\<Sum>w\<leftarrow>ws. (f w :: real)) = (\<Sum>r<length ws. f (ws ! r))"
proof -
  have "(\<Sum>i<length ws. map f ws ! i) = (\<Sum>r<length ws. f (ws ! r))"
    by (rule sum.cong) simp_all
  then show ?thesis using sum_list_nth_real [of "map f ws"] by simp
qed

lemma sameStore_nth:
  "sameStore ws \<Longrightarrow> r < length ws \<Longrightarrow>
   capMatrixAll (object (ws ! r)) = capMatrixAll (object (hd ws))
   \<and> capMatrixSum (object (ws ! r)) = capMatrixSum (object (hd ws))"
  by (simp add: sameStore_def list_all_length)

lemma prefixCount_mono:
  "m \<le> n \<Longrightarrow> n \<le> length ws \<Longrightarrow> prefixCount ws a m \<le> prefixCount ws a n"
  using pre_mono [of "length ws" "prefixCount ws a" m n] by (simp add: prefixCount_Suc)

lemma applyObject_conserves:
  assumes og: "offsetsGathered ws" and ss: "sameStore ws" and sg: "surfaceInGrid ws"
    and ne: "ws \<noteq> []" and a: "a < nObjects (object (hd ws))"
    and inv: "capMatrixSum (object (hd ws)) ! a
              * (\<Sum>i\<leftarrow>[0..<totSNGlob (object (hd ws)) (length ws) a].
                   \<Sum>j\<leftarrow>[0..<totSNGlob (object (hd ws)) (length ws) a].
                     capEntry (capMatrixAll (object (hd ws))) a (totSNGlob (object (hd ws)) (length ws) a) j i) = 1"
  shows "totalCharge (applyObject a ws) = totalCharge ws"
    and "r < length ws \<Longrightarrow> sum_list (rhoCorr ws r a) = 0"
proof -
  let ?P = "length ws"
  let ?pre = "prefixCount ws a"
  let ?T = "?pre ?P"
  define K where "K j i = capEntry (capMatrixAll (object (hd ws))) a ?T j i" for j i
  define S where "S = capMatrixSum (object (hd ws)) ! a"
  define psi where "psi r' j = phiVal (ws ! r') ! surfNode (object (ws ! r')) ?P r' a j" for r' j
  define phic where "phic = capMatrixPhiSum ws a"
  define delta where "delta j = (\<Sum>r'<?P. if ?pre r' \<le> j \<and> j < ?pre (Suc r') then phic - psi r' j else 0)" for j
  define rc where "rc i = (\<Sum>r'<?P. \<Sum>j = ?pre r'..<?pre (Suc r'). K j i * delta j)" for i
  note U = offsets_unfold [OF og _ a]
  have mono: "?pre r' \<le> ?pre (Suc r')" if "r' < ?P" for r'
    using that by (simp add: prefixCount_Suc)
  have eT: "?pre (Suc r') \<le> ?T" if "r' < ?P" for r'
    using that by (intro prefixCount_mono) simp_all
  have E1: "phiSumLocal (ws ! r') ?P r' a
              = (\<Sum>i<?T. \<Sum>j = ?pre r'..<?pre (Suc r'). K j i * psi r' j) * S" if "r' < ?P" for r'
    using sameStore_nth [OF ss that]
    by (simp add: phiSumLocal_def Let_def U [OF that] sum_list_range atLeast0LessThan K_def S_def psi_def)
  have E2: "phic = (\<Sum>r'<?P. (\<Sum>i<?T. \<Sum>j = ?pre r'..<?pre (Suc r'). K j i * psi r' j) * S)"
    unfolding phic_def capMatrixPhiSum_def sum_list_ranks
    by (rule sum.cong) (simp_all add: E1)
  have E3: "deltaPhiLocal (ws ! r') ?P r' a phic ! j
              = (if ?pre r' \<le> j \<and> j < ?pre (Suc r') then phic - psi r' j else 0)"
    if "r' < ?P" "j < ?T" for r' j
    using fold_set_nth [of "?pre (Suc r')" "replicate ?T 0" "\<lambda>j. phic - psi r' j" "?pre r'"]
      eT [OF that(1)] that(2)
    by (simp add: deltaPhiLocal_def Let_def U [OF that(1)] psi_def)
  have E4: "deltaPhi ws r' a ! j = delta j" if "r' < ?P" "j < ?T" for r' j
  proof -
    have "deltaPhi ws r' a ! j
            = (\<Sum>r''<?P. deltaPhiLocal (ws ! r'') ?P r'' a phic ! j)"
      using that by (simp add: deltaPhi_def allreduceSum_def U [OF that(1)] phic_def
          sum_list_ranks comp_def)
    also have "\<dots> = delta j"
      unfolding delta_def by (rule sum.cong) (simp_all add: E3 that(2))
    finally show ?thesis .
  qed
  have E5: "rhoCorrLocal (ws ! r') ?P r' a (deltaPhi ws r' a) ! i
              = (\<Sum>j = ?pre r'..<?pre (Suc r'). K j i * delta j)"
    if "r' < ?P" "i < ?T" for r' i
  proof -
    have "rhoCorrLocal (ws ! r') ?P r' a (deltaPhi ws r' a) ! i
            = (\<Sum>j = ?pre r'..<?pre (Suc r'). K j i * deltaPhi ws r' a ! j)"
      using sameStore_nth [OF ss that(1)] that(2)
      by (simp add: rhoCorrLocal_def Let_def U [OF that(1)] sum_list_range K_def)
    also have "\<dots> = (\<Sum>j = ?pre r'..<?pre (Suc r'). K j i * delta j)"
    proof (rule sum.cong [OF refl])
      fix j assume "j \<in> {?pre r'..<?pre (Suc r')}"
      then have "j < ?T" using eT [OF that(1)] by simp
      then show "K j i * deltaPhi ws r' a ! j = K j i * delta j" by (simp add: E4 [OF that(1)])
    qed
    finally show ?thesis .
  qed
  have E6: "rhoCorr ws r' a ! i = rc i" if "r' < ?P" "i < ?T" for r' i
  proof -
    have "rhoCorr ws r' a ! i
            = (\<Sum>r''<?P. rhoCorrLocal (ws ! r'') ?P r'' a (deltaPhi ws r'' a) ! i)"
      using that by (simp add: rhoCorr_def allreduceSum_def U [OF that(1)] sum_list_ranks comp_def)
    also have "\<dots> = rc i"
      unfolding rc_def by (rule sum.cong) (simp_all add: E5 that(2))
    finally show ?thesis .
  qed
  have L6: "length (rhoCorr ws r' a) = ?T" if "r' < ?P" for r'
    using that by (simp add: rhoCorr_def allreduceSum_def U [OF that])
  have inv': "S * (\<Sum>i<?T. \<Sum>j<?T. K j i) = 1"
  proof -
    from ne have 0: "0 < ?P" by simp
    have "hd ws = ws ! 0" using ne by (simp add: hd_conv_nth)
    then have "totSNGlob (object (hd ws)) ?P a = ?T" using U(2) [OF 0] by simp
    with inv show ?thesis by (simp add: S_def K_def sum_list_ranks)
  qed
  note Z = correction_sums_zero [of ?P ?pre ?T S K phic psi delta rc,
      OF mono prefixCount_0 refl inv' E2 delta_def rc_def]
  show "sum_list (rhoCorr ws r a) = 0" if "r < ?P"
  proof -
    have "sum_list (rhoCorr ws r a) = (\<Sum>i<?T. rhoCorr ws r a ! i)"
      by (simp add: sum_list_nth_real L6 [OF that])
    also have "\<dots> = (\<Sum>i<?T. rc i)"
      by (rule sum.cong) (simp_all add: E6 [OF that])
    finally show ?thesis using Z(1) by simp
  qed
  have E7: "sum_list (rhoVal (applyObject a ws ! r'))
              = sum_list (rhoVal (ws ! r')) + (\<Sum>j = ?pre r'..<?pre (Suc r'). rc j)"
    if "r' < ?P" for r'
  proof -
    have inr: "\<forall>j\<in>set [?pre r'..<?pre (Suc r')].
                 surfNode (object (ws ! r')) ?P r' a j < length (rhoVal (ws ! r'))"
    proof
      fix j assume "j \<in> set [?pre r'..<?pre (Suc r')]"
      then have j: "?pre r' \<le> j" "j < ?pre (Suc r')" by simp_all
      from sg that have "\<forall>n\<in>set (surfaceBlocks (object (ws ! r'))). n < length (rhoVal (ws ! r'))"
        by (auto simp: surfaceInGrid_def list_all_iff)
      with surfNode_in_blocks [OF og that a j]
      show "surfNode (object (ws ! r')) ?P r' a j < length (rhoVal (ws ! r'))" by blast
    qed
    have "sum_list (rhoVal (applyObject a ws ! r'))
            = sum_list (rhoVal (ws ! r')) + (\<Sum>j = ?pre r'..<?pre (Suc r'). rhoCorr ws r' a ! j)"
      using that fold_add_sum [OF inr, of "\<lambda>j. rhoCorr ws r' a ! j"]
      by (simp add: applyObject_def addCorrection_def Let_def U [OF that] sum_list_range)
    also have "(\<Sum>j = ?pre r'..<?pre (Suc r'). rhoCorr ws r' a ! j)
                 = (\<Sum>j = ?pre r'..<?pre (Suc r'). rc j)"
    proof (rule sum.cong [OF refl])
      fix j assume "j \<in> {?pre r'..<?pre (Suc r')}"
      then have "j < ?T" using eT [OF that] by simp
      then show "rhoCorr ws r' a ! j = rc j" by (rule E6 [OF that])
    qed
    finally show ?thesis .
  qed
  have "totalCharge (applyObject a ws)
          = (\<Sum>r'<?P. sum_list (rhoVal (applyObject a ws ! r')))"
    by (simp add: totalCharge_def sum_list_map_nth applyObject_basic(1))
  also have "\<dots> = (\<Sum>r'<?P. sum_list (rhoVal (ws ! r')) + (\<Sum>j = ?pre r'..<?pre (Suc r'). rc j))"
    by (rule sum.cong) (simp_all add: E7)
  also have "\<dots> = totalCharge ws + (\<Sum>r'<?P. \<Sum>j = ?pre r'..<?pre (Suc r'). rc j)"
    by (simp add: sum.distrib totalCharge_def sum_list_map_nth)
  finally show "totalCharge (applyObject a ws) = totalCharge ws"
    using Z(2) by simp
qed

lemma hd_applyObject:
  "ws \<noteq> [] \<Longrightarrow> applyObject a ws \<noteq> [] \<and> object (hd (applyObject a ws)) = object (hd ws)"
proof -
  assume ne: "ws \<noteq> []"
  then have l: "0 < length ws" by simp
  have ne': "applyObject a ws \<noteq> []" using l applyObject_basic(1) [of a ws] by auto
  have "hd (applyObject a ws) = applyObject a ws ! 0" using ne' by (simp add: hd_conv_nth)
  moreover have "hd ws = ws ! 0" using ne by (simp add: hd_conv_nth)
  ultimately show ?thesis using ne' applyObject_basic(3) [OF l, of a] by simp
qed

lemma sameStore_cong:
  assumes "map object ws' = map object ws"
  shows "sameStore ws' = sameStore ws"
proof -
  have l: "length ws' = length ws" using assms by (metis length_map)
  have h: "ws \<noteq> [] \<Longrightarrow> object (hd ws') = object (hd ws)"
    using assms l by (metis hd_map length_0_conv)
  have n: "i < length ws \<Longrightarrow> object (ws' ! i) = object (ws ! i)" for i
    using assms l by (metis nth_map)
  show ?thesis
  proof (cases "ws = []")
    case True
    with l show ?thesis by (simp add: sameStore_def)
  next
    case False
    show ?thesis
      unfolding sameStore_def list_all_length using h [OF False] n l by auto
  qed
qed

lemma applyObject_wf:
  assumes "ws \<noteq> []"
  shows "offsetsGathered (applyObject a ws) = offsetsGathered ws"
    and "sameStore (applyObject a ws) = sameStore ws"
    and "surfaceInGrid (applyObject a ws) = surfaceInGrid ws"
    and "sumInverted (applyObject a ws) = sumInverted ws"
proof -
  show "offsetsGathered (applyObject a ws) = offsetsGathered ws"
    by (rule offsetsGathered_cong) (rule applyObject_objects)
  show "sameStore (applyObject a ws) = sameStore ws"
    by (rule sameStore_cong) (rule applyObject_objects)
  show "surfaceInGrid (applyObject a ws) = surfaceInGrid ws"
    unfolding surfaceInGrid_def list_all_length by (auto simp: applyObject_basic)
  show "sumInverted (applyObject a ws) = sumInverted ws"
    using hd_applyObject [OF assms, of a] by (simp add: sumInverted_def applyObject_basic(1))
qed

lemma sumInverted_nth:
  "sumInverted ws \<Longrightarrow> a < nObjects (object (hd ws)) \<Longrightarrow>
   capMatrixSum (object (hd ws)) ! a
     * (\<Sum>i\<leftarrow>[0..<totSNGlob (object (hd ws)) (length ws) a].
          \<Sum>j\<leftarrow>[0..<totSNGlob (object (hd ws)) (length ws) a].
            capEntry (capMatrixAll (object (hd ws))) a (totSNGlob (object (hd ws)) (length ws) a) j i) = 1"
  by (simp add: sumInverted_def Let_def list_all_iff)

lemma applyObjects_conserve:
  assumes "ws \<noteq> []" "offsetsGathered ws" "sameStore ws" "sumInverted ws" "surfaceInGrid ws"
    and "\<forall>a\<in>set as. a < nObjects (object (hd ws))"
  shows "totalCharge (fold applyObject as ws) = totalCharge ws"
  using assms
proof (induction as arbitrary: ws)
  case Nil
  then show ?case by simp
next
  case (Cons a as)
  let ?ws = "applyObject a ws"
  have a: "a < nObjects (object (hd ws))" using Cons.prems(6) by simp
  note H = hd_applyObject [OF Cons.prems(1), of a]
  note W = applyObject_wf [OF Cons.prems(1), of a]
  have "totalCharge (fold applyObject as ?ws) = totalCharge ?ws"
    using Cons.prems H W by (intro Cons.IH) simp_all
  also have "\<dots> = totalCharge ws"
    using applyObject_conserves(1) [OF Cons.prems(2,3,5,1) a sumInverted_nth [OF Cons.prems(4) a]] .
  finally show ?case by simp
qed

lemma applyObjects_frame:
  assumes "offsetsGathered ws" "r < length ws" "\<forall>a\<in>set as. a < nObjects (object (hd ws))"
  shows "length (fold applyObject as ws) = length ws
       \<and> phiVal (fold applyObject as ws ! r) = phiVal (ws ! r)
       \<and> object (fold applyObject as ws ! r) = object (ws ! r)
       \<and> length (rhoVal (fold applyObject as ws ! r)) = length (rhoVal (ws ! r))
       \<and> (\<forall>n. n \<notin> set (surfaceBlocks (object (ws ! r)))
              \<longrightarrow> rhoVal (fold applyObject as ws ! r) ! n = rhoVal (ws ! r) ! n)"
  using assms
proof (induction as arbitrary: ws)
  case Nil
  then show ?case by simp
next
  case (Cons a as)
  let ?ws = "applyObject a ws"
  have ne: "ws \<noteq> []" using Cons.prems(2) by auto
  have a: "a < nObjects (object (hd ws))" using Cons.prems(3) by simp
  note H = hd_applyObject [OF ne, of a]
  note W = applyObject_wf [OF ne, of a]
  note B = applyObject_basic
  have IH: "length (fold applyObject as ?ws) = length ?ws
       \<and> phiVal (fold applyObject as ?ws ! r) = phiVal (?ws ! r)
       \<and> object (fold applyObject as ?ws ! r) = object (?ws ! r)
       \<and> length (rhoVal (fold applyObject as ?ws ! r)) = length (rhoVal (?ws ! r))
       \<and> (\<forall>n. n \<notin> set (surfaceBlocks (object (?ws ! r)))
              \<longrightarrow> rhoVal (fold applyObject as ?ws ! r) ! n = rhoVal (?ws ! r) ! n)"
    using Cons.prems H W B by (intro Cons.IH) simp_all
  show ?case
    using IH B Cons.prems(2) applyObject_frame [OF Cons.prems(1,2) a] by simp
qed

lemma conservation_of_inverted_store:
  assumes "offsetsGathered ws" and "sameStore ws" and "sumInverted ws" and "surfaceInGrid ws"
  shows "totalCharge (oApplyCapacitanceMatrix ws) = totalCharge ws
       \<and> (\<forall>a<nObjects (object (hd ws)). \<forall>r<length ws. sum_list (rhoCorr ws r a) = 0)"
proof (cases ws)
  case Nil
  then show ?thesis by (simp add: oApplyCapacitanceMatrix_def)
next
  case (Cons w ws')
  then have ne: "ws \<noteq> []" by simp
  from Cons have "oApplyCapacitanceMatrix ws = fold applyObject [0..<nObjects (object (hd ws))] ws"
    by (simp add: oApplyCapacitanceMatrix_def)
  then have "totalCharge (oApplyCapacitanceMatrix ws) = totalCharge ws"
    using applyObjects_conserve [OF ne assms, of "[0..<nObjects (object (hd ws))]"] by simp
  moreover have "sum_list (rhoCorr ws r a) = 0" if "a < nObjects (object (hd ws))" "r < length ws" for a r
    using applyObject_conserves(2) [OF assms(1,2,4) ne that(1) sumInverted_nth [OF assms(3) that(1)] that(2)] .
  ultimately show ?thesis by blast
qed

subsection \<open>What the initialisation establishes\<close>

lemma oAlloc_offsetsGathered:
  assumes len: "length ws = length domains"
    and ob: "\<And>r. r < length ws \<Longrightarrow> oAlloc domains r = Inr (object (ws ! r))"
  shows "offsetsGathered ws"
proof (cases "ws = []")
  case True
  then show ?thesis by (simp add: offsetsGathered_def)
next
  case False
  let ?N = "allreduceMax (map localMaxTag domains)"
  let ?G = "fst (oGatherSurfaceNodes ?N (map (\<lambda>d. snd (oFindObjectSurfaceNodes d ?N)) domains))"
  have F: "nObjects (object (ws ! r)) = ?N
           \<and> lookupSurfaceOffset (object (ws ! r)) = snd (oFindObjectSurfaceNodes (domains ! r) ?N)
           \<and> capMatrixAllOffsets (object (ws ! r)) = ?G" if "r < length ws" for r
  proof -
    from ob [OF that] have "Inr (object (ws ! r)) = oAlloc domains r" by simp
    then show ?thesis unfolding oAlloc_def Let_def by (simp only: sum.inject) simp
  qed
  have m: "map (\<lambda>w. lookupSurfaceOffset (object w)) ws
             = map (\<lambda>d. snd (oFindObjectSurfaceNodes d ?N)) domains"
    by (rule nth_equalityI) (simp_all add: len F [unfolded len])
  have h: "hd ws = ws ! 0" and 0: "0 < length ws" using False by (simp_all add: hd_conv_nth)
  have N0: "nObjects (object (ws ! 0)) = ?N" using F [OF 0] by simp
  show ?thesis
    unfolding offsetsGathered_def list_all_length h m N0 by (simp add: F)
qed

lemma fold_store_nth:
  "off + n \<le> length c \<Longrightarrow> k < n \<Longrightarrow>
   fold (\<lambda>l c. c[off + l := g l]) [0..<n] (c::real list) ! (off + k) = g k
   \<and> length (fold (\<lambda>l c. c[off + l := g l]) [0..<n] c) = length c"
proof (induction n arbitrary: k)
  case 0
  then show ?case by simp
next
  case (Suc n)
  have len: "length (fold (\<lambda>l c. c[off + l := g l]) [0..<n] c) = length c"
    by (induction n) simp_all
  show ?case
  proof (cases "k = n")
    case True
    with Suc.prems len show ?thesis by simp
  next
    case False
    with Suc.prems have "k < n" by simp
    with Suc.IH [of k] Suc.prems len show ?thesis by simp
  qed
qed

lemma storeInverse_read:
  assumes "a * T * T + T * T \<le> length capAll" "j < T" "i < T"
  shows "capEntry (storeInverse capAll a T invCap) a T j i = invCap ! (T * j + i)"
proof -
  have "T * j + i < T * j + T" using assms(3) by simp
  also have "\<dots> = T * Suc j" by simp
  also have "\<dots> \<le> T * T" using assms(2) by (intro mult_le_mono2) simp
  finally have k: "T * j + i < T * T" .
  from fold_store_nth [OF assms(1) k, of "\<lambda>l. invCap ! l"]
  show ?thesis by (simp add: capEntry_def storeInverse_def add.assoc)
qed

lemma oAlloc_surfaceBlocks:
  assumes "oAlloc domains mpiRank = Inr ob"
  shows "surfaceBlocks ob = lookupSurface ob"
    and "list_all (\<lambda>n. n < nat (sizeProd (domains ! mpiRank) ! rank (domains ! mpiRank))) (lookupSurface ob)"
proof -
  let ?d = "domains ! mpiRank"
  let ?B = "acceptedNodes ?d"
  let ?N = "nObjects ob"
  have ls: "lookupSurface ob = concat (map ?B [0..<?N])"
    and so: "lookupSurfaceOffset ob = blockOffsets ?B ?N"
    using oAlloc_fields [OF assms] by (simp_all add: oFindObjectSurfaceNodes_blocks)
  have "map (\<lambda>a. map ((!) (lookupSurface ob)) [lookupSurfaceOffset ob ! a..<lookupSurfaceOffset ob ! (a + 1)])
            [0..<?N] = map ?B [0..<?N]"
  proof (rule map_cong [OF refl])
    fix a assume "a \<in> set [0..<?N]"
    then have "a < ?N" by simp
    then show "map ((!) (lookupSurface ob)) [lookupSurfaceOffset ob ! a..<lookupSurfaceOffset ob ! (a + 1)] = ?B a"
      unfolding ls so by (rule block_slice)
  qed
  then show "surfaceBlocks ob = lookupSurface ob"
    by (simp only: surfaceBlocks_def ls [symmetric])
  show "list_all (\<lambda>n. n < nat (sizeProd ?d ! rank ?d)) (lookupSurface ob)"
    unfolding ls by (auto simp: list_all_iff acceptedNodes_def)
qed

lemma matrix_sum_flat:
  fixes f :: "nat \<Rightarrow> real"
  shows "(\<Sum>i<T. \<Sum>j<T. f (T * j + i)) = (\<Sum>l<T * T. f l)"
proof -
  have "(\<Sum>i<T. \<Sum>j<T. f (T * j + i)) = (\<Sum>j<T. \<Sum>i<T. f (T * j + i))"
    by (rule sum.swap)
  also have "\<dots> = (\<Sum>j<T. \<Sum>l = j * T..<j * T + T. f l)"
  proof (rule sum.cong [OF refl])
    fix j
    have "(\<Sum>l = j * T..<j * T + T. f l) = (\<Sum>i = 0..<T. f (i + j * T))"
      using sum.shift_bounds_nat_ivl [of f 0 "j * T" T] by (simp add: add.commute)
    then show "(\<Sum>i<T. f (T * j + i)) = (\<Sum>l = j * T..<j * T + T. f l)"
      by (simp add: atLeast0LessThan add.commute mult.commute)
  qed
  also have "\<dots> = (\<Sum>l<T * T. f l)"
    by (rule sum.nat_group)
  finally show ?thesis .
qed

lemma store_sum_inverted:
  assumes "a * T * T + T * T \<le> length capAll" "length invCap = T * T" "sum_list invCap \<noteq> 0"
    and "a < length capSum"
  shows "storeSum capSum a invCap ! a
           * (\<Sum>i\<leftarrow>[0..<T]. \<Sum>j\<leftarrow>[0..<T]. capEntry (storeInverse capAll a T invCap) a T j i) = 1"
proof -
  have "(\<Sum>i\<leftarrow>[0..<T]. \<Sum>j\<leftarrow>[0..<T]. capEntry (storeInverse capAll a T invCap) a T j i)
          = (\<Sum>i<T. \<Sum>j<T. capEntry (storeInverse capAll a T invCap) a T j i)"
    by (simp add: sum_list_ranks)
  also have "\<dots> = (\<Sum>i<T. \<Sum>j<T. invCap ! (T * j + i))"
    by (intro sum.cong refl) (simp add: storeInverse_read [OF assms(1)])
  also have "\<dots> = (\<Sum>l<T * T. invCap ! l)" by (rule matrix_sum_flat)
  also have "\<dots> = sum_list invCap" by (simp add: sum_list_nth_real assms(2))
  finally show ?thesis using assms(3,4) by (simp add: storeSum_def)
qed

section \<open>The claims\<close>

text \<open>
  Claim C1: in \<open>oComputeCapacitanceMatrix\<close>, for every object and every global surface
  index, the unit test charge is reset after the solve, so that each solve sees a charge
  grid that is zero except at the newly placed test node.

  The code does not do this for an object whose block of the surface lookup starts at a
  nonzero offset. The test charge is placed at \<open>lookupSurf[lookupSurfOff[a] + inode]\<close>
  and cleared at \<open>lookupSurf[inode]\<close>, without the offset. For the second object of
  \<open>three_objects\<close> (surface nodes 9 and 11, offset 1) the first solve sees the charge at
  node 9; the reset clears node 5, a node of the first object; the second solve sees
  charges at nodes 9 and 11; and the loop leaves the charge at node 11 behind, whatever
  the solver is.
\<close>

theorem test_charge_not_reset:
  "solverInputs (capColumns solve three_objects 0 1 1 (replicate 16 0) (replicate 16 0))
     = [(replicate 16 0)[9 := 1], (replicate 16 0)[9 := 1, 11 := 1]]
   \<and> rhoCap (capColumns solve three_objects 0 1 1 (replicate 16 0) (replicate 16 0))
     = (replicate 16 0)[11 := 1]"
  by code_simp

text \<open>
  Claim C2: every index stored in the block \<open>[SO[a], SO[a + 1])\<close> of the surface lookup
  refers to a non-ghost node whose own tag is that of object \<open>a\<close>.

  The second half fails on the code. The test of the node's own tag is commented out in
  both passes of \<open>oFindObjectSurfaceNodes\<close>, so a node is recorded for object \<open>a\<close> as
  soon as one of the eight sampled nodes, not necessarily itself, carries the tag. On the
  4 x 4 x 4 grid with the single tagged node 21, the block of the object holds all eight
  true nodes; node 22 has the value 0, which rounds to tag 0.
\<close>

theorem surface_lookup_foreign_node:
  "oFindObjectSurfaceNodes objmap_node21 1 = ([21, 22, 25, 26, 37, 38, 41, 42], [0, 8])
   \<and> val objmap_node21 ! 21 = 1 \<and> val objmap_node21 ! 22 = 0
   \<and> \<not> hasTag (val objmap_node21) 0 22
   \<and> spec_tag (val objmap_node21 ! 22) = 0 \<and> \<not> spec_ghost objmap_node21 22"
  by code_simp

text \<open>
  Claim C2, amended: on a scalar grid with one ghost layer on every side whose object map
  has no value exactly halfway between two whole numbers, every index stored in the block
  \<open>[SO[a], SO[a + 1])\<close> of the surface lookup refers to a local node that is not a
  ghost node and at which at least one and at most seven of the eight sampled nodes have
  the tag of object \<open>a\<close>. Ghost nodes and tags are those of the specification: a
  coordinate inside a ghost band, and the rounded value. (With more ghost layers the code
  takes ghost-band nodes for true nodes, which is the matter of claim C9.)
\<close>

theorem surface_lookup_entries:
  assumes "oneLayerScalar domain nx ny nz" and "2 \<le> nx" and "1 \<le> ny"
    and "length (val domain) = nat (nx * ny * nz)" and "noHalfTags domain"
    and "a < nObj"
    and "snd (oFindObjectSurfaceNodes domain nObj) ! a \<le> k"
    and "k < snd (oFindObjectSurfaceNodes domain nObj) ! (a + 1)"
  shows "fst (oFindObjectSurfaceNodes domain nObj) ! k < nat (nx * ny * nz)
       \<and> \<not> spec_ghost domain (int (fst (oFindObjectSurfaceNodes domain nObj) ! k))
       \<and> 0 < spec_count domain a (int (fst (oFindObjectSurfaceNodes domain nObj) ! k))
       \<and> spec_count domain a (int (fst (oFindObjectSurfaceNodes domain nObj) ! k)) < 8"
proof -
  have sp: "sizeProd domain ! rank domain = nx * ny * nz"
    using assms(1) by (simp add: oneLayerScalar_def eval_nat_numeral)
  have "fst (oFindObjectSurfaceNodes domain nObj) ! k \<in> set (spec_surfaceNodes domain a)"
    using surface_entry [OF assms(6-8)] acceptedNodes_spec [OF assms(1-5), of a] by simp
  then show ?thesis by (simp add: spec_surfaceNodes_def sp)
qed

theorem surface_lookup_entries_witness:
  "oneLayerScalar objmap_node21 4 4 4 \<and> (2::int) \<le> 4 \<and> (1::int) \<le> 4
   \<and> length (val objmap_node21) = nat (4 * 4 * 4) \<and> noHalfTags objmap_node21
   \<and> (0::nat) < 1
   \<and> snd (oFindObjectSurfaceNodes objmap_node21 1) ! 0 \<le> 1
   \<and> 1 < snd (oFindObjectSurfaceNodes objmap_node21 1) ! (0 + 1)
   \<and> fst (oFindObjectSurfaceNodes objmap_node21 1) ! 1 = 22
   \<and> \<not> spec_ghost objmap_node21 (int (fst (oFindObjectSurfaceNodes objmap_node21 1) ! 1))
   \<and> 0 < spec_count objmap_node21 0 (int (fst (oFindObjectSurfaceNodes objmap_node21 1) ! 1))
   \<and> spec_count objmap_node21 0 (int (fst (oFindObjectSurfaceNodes objmap_node21 1) ! 1)) < 8"
proof -
  have 1: "oneLayerScalar objmap_node21 4 4 4" by code_simp
  have 2: "(2::int) \<le> 4" and 3: "(1::int) \<le> 4" by simp_all
  have 4: "length (val objmap_node21) = nat (4 * 4 * 4)" by code_simp
  have 5: "noHalfTags objmap_node21" by code_simp
  have 6: "(0::nat) < 1" by simp
  have 7: "snd (oFindObjectSurfaceNodes objmap_node21 1) ! 0 \<le> 1" by code_simp
  have 8: "1 < snd (oFindObjectSurfaceNodes objmap_node21 1) ! (0 + 1)" by code_simp
  have 9: "fst (oFindObjectSurfaceNodes objmap_node21 1) ! 1 = 22" by code_simp
  from surface_lookup_entries [OF 1 2 3 4 5 6 7 8] 1 2 3 4 5 6 7 8 9 show ?thesis by blast
qed

text \<open>
  Claim C3: after \<open>oCollectObjectCharge\<close>, every locally owned surface node of every
  object \<open>a\<close> has received \<open>collectedCharge\<^sub>a / T\<^sub>a\<close> on \<open>rhoObj\<close>, where \<open>T\<^sub>a\<close> is the
  global surface count of the object.

  The code divides by another number for every object but the first. The divisor of
  object \<open>a\<close> is read at \<open>nodCorGlob[(a + 1) * size]\<close>; the global surface count is at
  \<open>nodCorGlob[a * (size + 1) + size]\<close>. On rank 1 of two ranks the second object has
  three surface nodes in all, the divisor read is 1, and a collected charge of 6 puts 6
  on each of the two local surface nodes instead of 2.
\<close>

theorem deposit_uses_wrong_count:
  "totSNGlob rank1_of_two 2 1 = 3
   \<and> invNrSurfNod (capMatrixAllOffsets rank1_of_two) 2 2 = [1 / 2, 1]
   \<and> depositCharge rank1_of_two [0, 6] (invNrSurfNod (capMatrixAllOffsets rank1_of_two) 2 2)
        (replicate 12 0) = (replicate 12 0)[7 := 6, 8 := 6]"
  by code_simp

text \<open>
  Claim C4: in exact arithmetic \<open>oApplyCapacitanceMatrix\<close> conserves the total charge:
  for every object and every \<open>phi\<close> the corrections \<open>rhoCorr\<close> sum to zero over the
  global surface indices of the object, so the sum of \<open>rho\<close> over all nodes is the same
  before and after the call.

  On the store that the program itself builds this fails as soon as two objects have
  different surface counts. The corrections of object \<open>a\<close> sum to zero when
  \<open>capMatrixSum[a]\<close> is the reciprocal of the sum of the matrix that the correction reads
  (\<open>conservation_of_inverted_store\<close>), and \<open>oComputeCapacitanceMatrix\<close> sets it so for
  the matrix it has just stored (\<open>store_sum_inverted\<close>). But the block of object \<open>a\<close>
  starts at \<open>a * T\<^sub>a * T\<^sub>a\<close>, so a later object can overwrite the matrix of an earlier
  one. On the 4 x 4 x 4 grid of \<open>objmap_2_1\<close> the objects have 2 and 1 surface nodes;
  storing the inverse (3) of the second object overwrites entry (0, 1) of the first, whose
  matrix with rows (2, 1), (1, 2) and sum 6 is read back with rows (2, 3), (1, 2) and sum
  8, while \<open>capMatrixSum[0]\<close> stays 1/6. With \<open>rho\<close> zero and \<open>phi\<close> 1, 2 and 4 at
  the surface nodes, the corrections of the first object are 3/2 and 13/6, and the call
  raises the total charge from 0 to 11/3.
\<close>

theorem correction_after_init_creates_charge:
  "oAlloc [objmap_2_1] 0 = Inr object_2_1
   \<and> capMatrixAll stored_2_1 = [2, 3, 1, 2, 0, 0, 0, 0, 0]
   \<and> capMatrixSum stored_2_1 = [1 / 6, 1 / 3]
   \<and> totalCharge world_2_1 = 0
   \<and> rhoCorr world_2_1 0 0 = [3 / 2, 13 / 6]
   \<and> sum_list (rhoCorr world_2_1 0 0) = 11 / 3
   \<and> totalCharge (oApplyCapacitanceMatrix world_2_1) = 11 / 3"
  by code_simp

text \<open>
  Claim C5: \<open>oFindObjectSurfaceNodes\<close> records node \<open>i\<close> for object \<open>a\<close> exactly when
  \<open>i\<close> is not a ghost node and the count \<open>d\<close> over the eight sampled nodes \<open>i\<close>,
  \<open>i - sizeProd[3]\<close>, \<open>i - sizeProd[1]\<close>, \<open>i - sizeProd[1] - sizeProd[3]\<close>,
  \<open>i - sizeProd[2]\<close>, \<open>i - sizeProd[2] - sizeProd[3]\<close>, \<open>i - sizeProd[2] - sizeProd[1]\<close>,
  \<open>i - sizeProd[2] - sizeProd[1] - sizeProd[3]\<close> with the tag of \<open>a\<close> satisfies
  \<open>0 < d < 8\<close>; and the fill pass records exactly the nodes the counting pass accepted,
  in the same order, so that each block is exactly filled.

  The two passes agree with each other on every grid (\<open>countSurface_counts\<close>,
  \<open>oFindObjectSurfaceNodes_blocks\<close>), and on a scalar grid with one ghost layer per side
  and no value halfway between two whole numbers they record exactly the nodes of the
  claim (\<open>acceptedNodes_spec\<close>). Beyond that the code departs from the claim in two
  ways. The ghost test is \<open>isGhostNode\<close>, which never reads the numbers of ghost layers:
  on the grid with two ghost layers whose node 85 carries tag 1, the code records the
  nodes 85 and 86, of which 85 lies in the ghost band, and misses the nodes 92, 122 and
  128, which are surface nodes by the claim (node 92 is a true node with \<open>d = 1\<close>). And
  the tag test is the open interval
  \<open>a + 0.5 < val < a + 1.5\<close>: the value 1.5 has tag 2, for \<open>oAlloc\<close> too, which counts
  two objects, but it passes the test of neither, so the second object gets an empty block
  where the claim has eight surface nodes.
\<close>

theorem surface_lookup_departs:
  "oFindObjectSurfaceNodes objmap_two_layers 1 = ([85, 86], [0, 2])
   \<and> spec_surfaceNodes objmap_two_layers 0 = [86, 92, 122, 128]
   \<and> spec_ghost objmap_two_layers 85
   \<and> \<not> spec_ghost objmap_two_layers 92 \<and> spec_count objmap_two_layers 0 92 = 1
   \<and> spec_tag (val objmap_half ! 21) = 2
   \<and> allreduceMax (map localMaxTag [objmap_half]) = 2
   \<and> oFindObjectSurfaceNodes objmap_half 2 = ([], [0, 0, 0])
   \<and> spec_surfaceNodes objmap_half 1 = [21, 22, 25, 26, 37, 38, 41, 42]"
  by code_simp

text \<open>
  Claim C6: the capacitance store is one concatenated array in which the matrices of
  distinct objects occupy disjoint blocks, for all surface counts; every write stays
  inside the store; and the correction reads each matrix where it was stored.

  The blocks are not disjoint on the code. The block of object \<open>a\<close> starts at
  \<open>a * T\<^sub>a * T\<^sub>a\<close>, not at the sum of the sizes of the blocks before it. With surface
  counts 2 and 1 the block of the second object is cell 1, inside the block 0..3 of the
  first, and storing the second inverse overwrites entry (0, 1) of the first. With counts
  1 and 3 the store has 16 cells and the block of the second object is 9..17. (What is
  read is what was last stored there: \<open>storeInverse_read\<close>.)
\<close>

theorem capacitance_blocks_collide:
  "oGatherSurfaceNodes 2 sOffs_2_1 = ([0, 2, 0, 1], 3)
   \<and> set (storeIndices 0 2) \<inter> set (storeIndices 1 1) = {1}
   \<and> capEntry (storeInverse (storeInverse (replicate (3 * 3) 0) 0 2 [1, 2, 3, 4]) 1 1 [9]) 0 2 0 1 = 9
   \<and> oGatherSurfaceNodes 2 sOffs_1_3 = ([0, 1, 0, 3], 4)
   \<and> 17 \<in> set (storeIndices 1 3) \<and> \<not> 17 < (4 * 4 :: nat)"
  by code_simp

text \<open>
  Claim C7: when the computed object count is 0, the initialisation fails with a CONFIG
  error.

  \<open>oAlloc\<close> has no test of the object count, and object.c has no fatal message at all.
  With an object map without any tag the count is 0 and \<open>oAlloc\<close> returns an object.
\<close>

theorem oAlloc_no_objects_proceeds:
  "allreduceMax (map localMaxTag [objmap_empty]) = 0
   \<and> oAlloc [objmap_empty] 0 = Inr object_empty \<and> oAlloc [objmap_empty] 0 \<noteq> Inl CONFIG"
  by code_simp

text \<open>
  Claim C7, amended: when the computed object count is 0, \<open>oAlloc\<close> proceeds and
  returns the object with \<open>nObjects = 0\<close>, empty lookup tables, offset tables \<open>[0]\<close>
  and an empty capacitance store.
\<close>

theorem oAlloc_no_objects:
  "allreduceMax (map localMaxTag domains) = 0 \<Longrightarrow> oAlloc domains mpiRank = Inr object_empty"
  by (simp add: oAlloc_def oFillLookupTables_none oFindObjectSurfaceNodes_none
      oGatherSurfaceNodes_def object_empty_def)

theorem oAlloc_no_objects_witness:
  "allreduceMax (map localMaxTag [objmap_empty]) = 0 \<and> oAlloc [objmap_empty] 0 = Inr object_empty"
proof -
  have 1: "allreduceMax (map localMaxTag [objmap_empty]) = 0" by code_simp
  from oAlloc_no_objects [OF 1] 1 show ?thesis by simp
qed

text \<open>
  Claim C8: the interior lookup contains only non-ghost nodes, so that a particle whose
  node is a ghost node is never matched and never attributed to an object.

  The test \<open>!isGhostNode\<close> is commented out in both passes of \<open>oFillLookupTables\<close>, so
  the interior lookup holds ghost nodes too. On the 3 x 3 x 3 grid whose ghost node 0
  carries tag 1, the interior lookup is \<open>[0]\<close>, and a particle of charge -1 at position
  (0.5, 0.5, 0.5), whose node is 0, is matched: its charge is added to the counter of
  the object.
\<close>

theorem ghost_particle_attributed:
  "isGhostNode objmap_ghost0 0
   \<and> oAlloc [objmap_ghost0] 0 = Inr object_ghost0
   \<and> lookupInterior object_ghost0 = [0]
   \<and> particleNode (sizeProd objmap_ghost0) [0.5, 0.5, 0.5] = 0
   \<and> collectParticle object_ghost0 0 (- 1) [0] = [- 1]"
  by code_simp

text \<open>
  Claim C8, amended: the interior lookup of the object that \<open>oAlloc\<close> builds holds,
  object by object, every local node whose value exceeds 0.5, ghost nodes included;
  consequently \<open>oCollectObjectCharge\<close> attributes a particle exactly when its node \<open>p\<close>
  is a local node whose value exceeds 0.5, ghost or not, and then to the object of that
  node's tag.
\<close>

theorem interior_lookup_attribution:
  assumes "mpiRank < length domains" and "oAlloc domains mpiRank = Inr ob"
    and "length chargeCounter = nObjects ob"
  shows "lookupInterior ob = concat (map (interiorNodes (domains ! mpiRank)) [0..<nObjects ob])
    \<and> collectParticle ob p q chargeCounter
        = (if 0 \<le> p \<and> p < sizeProd (domains ! mpiRank) ! rank (domains ! mpiRank)
              \<and> val (domains ! mpiRank) ! nat p > 0.5
           then chargeCounter[tagOf (val (domains ! mpiRank) ! nat p) - 1
                  := chargeCounter ! (tagOf (val (domains ! mpiRank) ! nat p) - 1) + q]
           else chargeCounter)"
proof -
  let ?d = "domains ! mpiRank"
  let ?C = "0 \<le> p \<and> p < sizeProd ?d ! rank ?d \<and> val ?d ! nat p > 0.5"
  let ?t = "tagOf (val ?d ! nat p)"
  note I = oAlloc_interior [OF assms(1,2)]
  have t: "?C \<Longrightarrow> 1 \<le> ?t \<and> ?t \<le> nObjects ob"
    using tagOf_pos [of "val ?d ! nat p"] oAlloc_tags [OF assms(1,2), of "nat p"] by auto
  have "collectParticle ob p q chargeCounter
      = fold (\<lambda>a. fold (\<lambda>b cc. if int (lookupInterior ob ! b) = p then cc[a := cc ! a + q] else cc)
                     [lookupInteriorOffset ob ! a..<lookupInteriorOffset ob ! (a + 1)])
          [0..<nObjects ob] chargeCounter"
    by (simp add: collectParticle_def)
  also have "\<dots> = fold (\<lambda>a cc. fold (\<lambda>x cc. cc[a := cc ! a + q])
                                (if ?C \<and> ?t = a + 1 then [nat p] else []) cc)
                     [0..<nObjects ob] chargeCounter"
  proof (rule fold_cong [OF refl refl], rule ext)
    fix a cc assume "a \<in> set [0..<nObjects ob]"
    then have a: "a < nObjects ob" by simp
    show "fold (\<lambda>b cc. if int (lookupInterior ob ! b) = p then cc[a := cc ! a + q] else cc)
                     [lookupInteriorOffset ob ! a..<lookupInteriorOffset ob ! (a + 1)] cc
        = fold (\<lambda>x cc. cc[a := cc ! a + q]) (if ?C \<and> ?t = a + 1 then [nat p] else []) cc"
      using collect_block [OF I a, of p q cc] interior_match [of p ?d a]
      by (simp add: conj_assoc)
  qed
  also have "\<dots> = (if ?C then chargeCounter[?t - 1 := chargeCounter ! (?t - 1) + q] else chargeCounter)"
    using t by (rule collect_objects)
  finally show ?thesis using I(1) by simp
qed

theorem interior_lookup_attribution_witness:
  "0 < length [objmap_ghost0] \<and> oAlloc [objmap_ghost0] 0 = Inr object_ghost0
   \<and> length [0::real] = nObjects object_ghost0
   \<and> lookupInterior object_ghost0
       = concat (map (interiorNodes ([objmap_ghost0] ! 0)) [0..<nObjects object_ghost0])
   \<and> collectParticle object_ghost0 0 (- 1) [0] = [- 1]"
proof -
  have 1: "0 < length [objmap_ghost0]" by simp
  have 2: "oAlloc [objmap_ghost0] 0 = Inr object_ghost0" by code_simp
  have 3: "length [0::real] = nObjects object_ghost0" by code_simp
  have 4: "(if (0::int) \<le> 0 \<and> 0 < sizeProd ([objmap_ghost0] ! 0) ! rank ([objmap_ghost0] ! 0)
              \<and> val ([objmap_ghost0] ! 0) ! nat 0 > 0.5
           then [0::real][tagOf (val ([objmap_ghost0] ! 0) ! nat 0) - 1
                  := [0] ! (tagOf (val ([objmap_ghost0] ! 0) ! nat 0) - 1) + (- 1)]
           else [0]) = [- 1]" by code_simp
  from interior_lookup_attribution [OF 1 2 3, of 0 "- 1"] 1 2 3 4 show ?thesis by simp
qed

text \<open>
  Claim C9: \<open>isGhostNode\<close> returns true exactly for the nodes with a coordinate inside
  a ghost band, for every grid geometry, also when the numbers of ghost layers differ
  from one.

  \<open>isGhostNode\<close> hands pointers into \<open>nGhostLayers\<close> down the recursion and never reads
  them: it tests each coordinate against one layer below and \<open>trueSize + 1\<close> above. On a
  grid with two ghost layers per side the node (1, 2, 2), linear index 85, has its first
  coordinate inside the lower ghost band, and \<open>isGhostNode\<close> answers false. (On scalar
  grids with one ghost layer per side the answer is right: \<open>isGhostNode_one_layer\<close>.)
\<close>

theorem isGhostNode_two_layers:
  "spec_ghost grid_two_layers 85 \<and> \<not> isGhostNode grid_two_layers 85"
  by code_simp

text \<open>
  Claim C10: \<open>oApplyCapacitanceMatrix\<close> leaves \<open>phi\<close> unchanged, and changes \<open>rho\<close>
  at no node outside the surface lookup blocks of the rank.

  This holds for every rank, provided the ranks hold the offsets that
  \<open>oGatherSurfaceNodes\<close> built from their surface offsets and the listed surface nodes
  are cells of the grids; the object and the size of \<open>rho\<close> are unchanged as well.
\<close>

theorem correction_frame:
  assumes "offsetsGathered ws" and "r < length ws" and "surfaceInGrid ws"
  shows "length (oApplyCapacitanceMatrix ws) = length ws
       \<and> phiVal (oApplyCapacitanceMatrix ws ! r) = phiVal (ws ! r)
       \<and> object (oApplyCapacitanceMatrix ws ! r) = object (ws ! r)
       \<and> length (rhoVal (oApplyCapacitanceMatrix ws ! r)) = length (rhoVal (ws ! r))
       \<and> (\<forall>n. n \<notin> set (surfaceBlocks (object (ws ! r)))
              \<longrightarrow> rhoVal (oApplyCapacitanceMatrix ws ! r) ! n = rhoVal (ws ! r) ! n)"
proof (cases ws)
  case Nil
  with assms(2) show ?thesis by simp
next
  case (Cons w ws')
  then have "oApplyCapacitanceMatrix ws = fold applyObject [0..<nObjects (object (hd ws))] ws"
    by (simp add: oApplyCapacitanceMatrix_def)
  then show ?thesis
    using applyObjects_frame [OF assms(1,2), of "[0..<nObjects (object (hd ws))]"] by simp
qed

theorem correction_frame_witness:
  "offsetsGathered two_ranks \<and> (0::nat) < length two_ranks \<and> surfaceInGrid two_ranks
   \<and> phiVal (oApplyCapacitanceMatrix two_ranks ! 0) = phiVal (two_ranks ! 0)
   \<and> 1 \<notin> set (surfaceBlocks (object (two_ranks ! 0)))
   \<and> rhoVal (oApplyCapacitanceMatrix two_ranks ! 0) ! 1 = rhoVal (two_ranks ! 0) ! 1"
proof -
  have 1: "offsetsGathered two_ranks" by code_simp
  have 2: "0 < length two_ranks" by code_simp
  have 3: "surfaceInGrid two_ranks" by code_simp
  have 4: "1 \<notin> set (surfaceBlocks (object (two_ranks ! 0)))" by code_simp
  from correction_frame [OF 1 2 3] 1 2 3 4 show ?thesis by blast
qed

end
